theory Spec2Isabelle
  imports Complex_Main "HOL-Library.AList"
begin

section \<open>Approximate Personalized PageRank by local push (AMiner/pprfile.py)\<close>

text \<open>
  The embedding follows \<^verbatim>\<open>src/AMiner/pprfile.py\<close>.

  \<^item> Node ids, row offsets (\<^verbatim>\<open>indptr\<close>) and degrees are natural numbers; the arrays
    \<^verbatim>\<open>indptr\<close>, \<^verbatim>\<open>indices\<close> and \<^verbatim>\<open>deg\<close> are lists.
  \<^item> The source computes in \<^verbatim>\<open>float32\<close>. The model computes in exact arithmetic on
    \<^typ>\<open>real\<close>: rounding, underflow, overflow and not-a-number values are not modelled.
    In the concrete runs evaluated below the settled values and residuals are dyadic and
    exact in \<^verbatim>\<open>float32\<close>, and no threshold comparison depends on the rounding of
    \<open>epsilon\<close>, except where the text says otherwise. The loop (\<open>pop_step\<close>, \<open>push_while\<close>, \<open>after_pops\<close>) takes the threshold
    factor \<^verbatim>\<open>alpha_eps\<close> as an argument: a statement about every \<open>alpha_eps\<close> covers
    whatever line 10 computes, also the 0 that the \<^verbatim>\<open>float32\<close> product gives when
    \<open>alpha * epsilon\<close> underflows; \<open>calc_ppr_node\<close> takes the exact product.
  \<^item> The dictionaries \<^verbatim>\<open>p\<close> and \<^verbatim>\<open>r\<close> are association lists in insertion order (the
    order of \<^verbatim>\<open>list(p.keys())\<close>); a store to a key that exists keeps its position,
    a store to a new key appends, which is \<^const>\<open>AList.update\<close>.
  \<^item> The worklist \<^verbatim>\<open>q\<close> is a list; \<^verbatim>\<open>q.pop()\<close> takes the last element and
    \<^verbatim>\<open>q.append\<close> adds at the end.
  \<^item> An index past the end of an array is \<^verbatim>\<open>IndexError\<close> (the NumPy behaviour; code
    compiled by numba does not check bounds, so the theorems speak about in-range inputs).
    A division by a zero degree is \<^verbatim>\<open>ZeroDivisionError\<close> (numba's default error model).
  \<^item> The \<^verbatim>\<open>while\<close> loop may run forever, so it takes fuel: the number of pops it may
    perform. Running out of fuel is the value \<^const>\<open>None\<close>.
\<close>

datatype error =
    IndexError
  | ZeroDivisionError
  | NonFinite
  | ValueError string

type_synonym node = nat
type_synonym sparse_vec = "(node \<times> real) list"
type_synonym push_state = "sparse_vec \<times> sparse_vec \<times> node list"

subsection \<open>Dictionary reads and writes\<close>

text \<open>\<^verbatim>\<open>d[k] if k in d else f32_0\<close>\<close>

definition get0 :: "sparse_vec \<Rightarrow> node \<Rightarrow> real" where
  "get0 d k = (case map_of d k of Some x \<Rightarrow> x | None \<Rightarrow> 0)"

text \<open>\<^verbatim>\<open>if k in d: d[k] += x  else: d[k] = x\<close>\<close>

definition add_to :: "sparse_vec \<Rightarrow> node \<Rightarrow> real \<Rightarrow> sparse_vec" where
  "add_to d k x =
     (case map_of d k of
        Some y \<Rightarrow> AList.update k (y + x) d
      | None \<Rightarrow> AList.update k x d)"

text \<open>\<^verbatim>\<open>indices[indptr[unode]:indptr[unode + 1]]\<close>; a slice never raises.\<close>

definition row_slice :: "nat list \<Rightarrow> node list \<Rightarrow> node \<Rightarrow> node list" where
  "row_slice indptr indices u = drop (indptr ! u) (take (indptr ! (u + 1)) indices)"

subsection \<open>The push engine: \<^verbatim>\<open>_calc_ppr_node\<close>\<close>

text \<open>
  The \<^verbatim>\<open>for vnode in ...\<close> loop (lines 25 to 35) over the neighbours that are left,
  on the residuals \<^verbatim>\<open>r\<close> and the worklist \<^verbatim>\<open>q\<close>.
\<close>

fun push_nbrs ::
  "nat list \<Rightarrow> real \<Rightarrow> real \<Rightarrow> node \<Rightarrow> real \<Rightarrow> node list \<Rightarrow> sparse_vec \<Rightarrow> node list
     \<Rightarrow> error + (sparse_vec \<times> node list)" where
  "push_nbrs deg alpha alpha_eps unode res [] r q = Inr (r, q)"
| "push_nbrs deg alpha alpha_eps unode res (vnode # vs) r q =
     (if length deg \<le> unode then Inl IndexError
      else if deg ! unode = 0 then Inl ZeroDivisionError
      else
        let val = (1 - alpha) * res / real (deg ! unode);
            r' = add_to r vnode val;
            res_vnode = get0 r' vnode
        in if length deg \<le> vnode then Inl IndexError
           else if res_vnode \<ge> alpha_eps * real (deg ! vnode) then
             (if vnode \<notin> set q
              then push_nbrs deg alpha alpha_eps unode res vs r' (q @ [vnode])
              else push_nbrs deg alpha alpha_eps unode res vs r' q)
           else push_nbrs deg alpha alpha_eps unode res vs r' q)"

text \<open>One iteration of the \<^verbatim>\<open>while\<close> loop (lines 17 to 35), for a non-empty worklist.\<close>

definition pop_step ::
  "nat list \<Rightarrow> node list \<Rightarrow> nat list \<Rightarrow> real \<Rightarrow> real \<Rightarrow> push_state \<Rightarrow> error + push_state" where
  "pop_step indptr indices deg alpha alpha_eps st =
     (case st of (p, r, q) \<Rightarrow>
        let unode = last q;
            q1 = butlast q;
            res = get0 r unode;
            p1 = add_to p unode res;
            r1 = AList.update unode 0 r
        in if length indptr \<le> unode + 1 then Inl IndexError
           else
             (case push_nbrs deg alpha alpha_eps unode res
                     (row_slice indptr indices unode) r1 q1 of
                Inl e \<Rightarrow> Inl e
              | Inr (r2, q2) \<Rightarrow> Inr (p1, r2, q2)))"

text \<open>The \<^verbatim>\<open>while len(q) > 0\<close> loop; the first argument is the number of pops allowed.\<close>

fun push_while ::
  "nat \<Rightarrow> nat list \<Rightarrow> node list \<Rightarrow> nat list \<Rightarrow> real \<Rightarrow> real \<Rightarrow> push_state
     \<Rightarrow> (error + push_state) option" where
  "push_while 0 indptr indices deg alpha alpha_eps st =
     (case st of (p, r, q) \<Rightarrow> if q = [] then Some (Inr st) else None)"
| "push_while (Suc fuel) indptr indices deg alpha alpha_eps st =
     (case st of (p, r, q) \<Rightarrow>
        if q = [] then Some (Inr st)
        else
          (case pop_step indptr indices deg alpha alpha_eps st of
             Inl e \<Rightarrow> Some (Inl e)
           | Inr st' \<Rightarrow> push_while fuel indptr indices deg alpha alpha_eps st'))"

text \<open>The state before the loop (lines 12 to 15).\<close>

definition init_state :: "node \<Rightarrow> real \<Rightarrow> push_state" where
  "init_state inode alpha = ([(inode, 0)], [(inode, alpha)], [inode])"

text \<open>\<^verbatim>\<open>return list(p.keys()), list(p.values())\<close>\<close>

definition keys_values :: "push_state \<Rightarrow> node list \<times> real list" where
  "keys_values st = (case st of (p, r, q) \<Rightarrow> (map fst p, map snd p))"

definition calc_ppr_node ::
  "nat \<Rightarrow> node \<Rightarrow> nat list \<Rightarrow> node list \<Rightarrow> nat list \<Rightarrow> real \<Rightarrow> real
     \<Rightarrow> (error + (node list \<times> real list)) option" where
  "calc_ppr_node fuel inode indptr indices deg alpha epsilon =
     (let alpha_eps = alpha * epsilon
      in case push_while fuel indptr indices deg alpha alpha_eps (init_state inode alpha) of
           None \<Rightarrow> None
         | Some (Inl e) \<Rightarrow> Some (Inl e)
         | Some (Inr st) \<Rightarrow> Some (Inr (keys_values st)))"

text \<open>
  The state after exactly \<open>k\<close> iterations of the \<^verbatim>\<open>while\<close> loop, when the loop makes
  that many without an error: the instrumented loop, read after each pop.
\<close>

fun after_pops ::
  "nat \<Rightarrow> nat list \<Rightarrow> node list \<Rightarrow> nat list \<Rightarrow> real \<Rightarrow> real \<Rightarrow> push_state
     \<Rightarrow> push_state option" where
  "after_pops 0 indptr indices deg alpha alpha_eps st = Some st"
| "after_pops (Suc k) indptr indices deg alpha alpha_eps st =
     (case st of (p, r, q) \<Rightarrow>
        if q = [] then None
        else
          (case pop_step indptr indices deg alpha alpha_eps st of
             Inl e \<Rightarrow> None
           | Inr st' \<Rightarrow> after_pops k indptr indices deg alpha alpha_eps st'))"

subsection \<open>Quantities the properties speak about\<close>

text \<open>\<^verbatim>\<open>sum(d.values())\<close>\<close>

definition total :: "sparse_vec \<Rightarrow> real" where
  "total d = sum_list (map snd d)"

definition nonneg :: "sparse_vec \<Rightarrow> bool" where
  "nonneg d = list_all (\<lambda>kv. 0 \<le> snd kv) d"

text \<open>
  The degree vector is the one of the CSR arrays: one degree per row, equal to the length of
  the row's slice (\<^verbatim>\<open>degree[v] == indptr[v+1] - indptr[v]\<close>).
\<close>

definition consistent_deg :: "nat list \<Rightarrow> node list \<Rightarrow> nat list \<Rightarrow> bool" where
  "consistent_deg indptr indices deg \<longleftrightarrow>
     length indptr = length deg + 1 \<and>
     list_all (\<lambda>u. deg ! u = length (row_slice indptr indices u)) [0..<length deg]"

text \<open>A number of pops that the loop never exceeds on a graph with consistent degrees.\<close>

definition pop_bound :: "node list \<Rightarrow> real \<Rightarrow> real \<Rightarrow> nat" where
  "pop_bound indices alpha epsilon =
     nat \<lfloor>1 / min alpha (alpha * epsilon)\<rfloor> * (length indices + 2) + 1"

text \<open>
  The invariant of the \<^verbatim>\<open>while\<close> loop behind the bound: residuals are not negative,
  \<open>alpha * sum(p) + sum(r)\<close> does not exceed \<open>alpha\<close>, the worklist has no duplicate and
  holds the seed \<open>s\<close> or column ids only, and a queued node of positive degree carries
  a residual of at least \<open>c\<close>.
\<close>

definition push_inv ::
  "nat list \<Rightarrow> node list \<Rightarrow> real \<Rightarrow> real \<Rightarrow> node \<Rightarrow> push_state \<Rightarrow> bool" where
  "push_inv deg indices alpha c s st =
     (case st of (p, r, q) \<Rightarrow>
        nonneg r \<and> alpha * total p + total r \<le> alpha \<and> distinct q \<and>
        set q \<subseteq> insert s (set indices) \<and>
        (\<forall>v\<in>set q. v < length deg \<longrightarrow> deg ! v \<noteq> 0 \<longrightarrow> c \<le> get0 r v))"

text \<open>The pops that a state still allows: the quantity that every pop lowers.\<close>

definition pops_left :: "node list \<Rightarrow> real \<Rightarrow> push_state \<Rightarrow> nat" where
  "pops_left indices c st =
     (case st of (p, r, q) \<Rightarrow>
        nat \<lfloor>(1 - total p) / c\<rfloor> * (length indices + 2) + length q)"


subsection \<open>The batch drivers: \<^verbatim>\<open>calc_ppr\<close> and \<^verbatim>\<open>calc_ppr_topk_parallel\<close>\<close>

text \<open>The sequential loop of \<^verbatim>\<open>calc_ppr\<close> over the seeds that are left.\<close>

fun calc_ppr_loop ::
  "nat \<Rightarrow> nat list \<Rightarrow> node list \<Rightarrow> nat list \<Rightarrow> real \<Rightarrow> real \<Rightarrow> node list
     \<Rightarrow> node list list \<Rightarrow> real list list
     \<Rightarrow> (error + (node list list \<times> real list list)) option" where
  "calc_ppr_loop fuel indptr indices deg alpha epsilon [] js vals = Some (Inr (js, vals))"
| "calc_ppr_loop fuel indptr indices deg alpha epsilon (node # nodes) js vals =
     (case calc_ppr_node fuel node indptr indices deg alpha epsilon of
        None \<Rightarrow> None
      | Some (Inl e) \<Rightarrow> Some (Inl e)
      | Some (Inr (j, val)) \<Rightarrow>
          calc_ppr_loop fuel indptr indices deg alpha epsilon nodes (js @ [j]) (vals @ [val]))"

definition calc_ppr ::
  "nat \<Rightarrow> nat list \<Rightarrow> node list \<Rightarrow> nat list \<Rightarrow> real \<Rightarrow> real \<Rightarrow> node list
     \<Rightarrow> (error + (node list list \<times> real list list)) option" where
  "calc_ppr fuel indptr indices deg alpha epsilon nodes =
     calc_ppr_loop fuel indptr indices deg alpha epsilon nodes [] []"

text \<open>
  \<^verbatim>\<open>np.argsort(val_np)\<close>: the positions of \<^verbatim>\<open>val_np\<close> in ascending order of value.
  NumPy leaves the order of equal values open; the model takes the stable order.
\<close>

definition argsort :: "real list \<Rightarrow> nat list" where
  "argsort val = sort_key (\<lambda>i. val ! i) [0..<length val]"

text \<open>\<^verbatim>\<open>xs[-k:]\<close> for \<open>k > 0\<close>: the last \<open>k\<close> elements, all of them when there are fewer.\<close>

definition last_k :: "nat \<Rightarrow> 'a list \<Rightarrow> 'a list" where
  "last_k k xs = drop (length xs - k) xs"

text \<open>The truncation of one row (lines 57 to 65).\<close>

definition topk_row :: "int \<Rightarrow> node list \<times> real list \<Rightarrow> node list \<times> real list" where
  "topk_row topk jv =
     (case jv of (j, val) \<Rightarrow>
        if topk > 0 then
          let idx_topk = last_k (nat topk) (argsort val)
          in (map (\<lambda>i. j ! i) idx_topk, map (\<lambda>i. val ! i) idx_topk)
        else (j, val))"

text \<open>
  The \<^verbatim>\<open>numba.prange\<close> loop of \<^verbatim>\<open>calc_ppr_topk_parallel\<close>. The iterations run in an order
  that the scheduler chooses: \<open>sched\<close> lists the iterations left, each index of
  \<^verbatim>\<open>range(len(nodes))\<close> once. Iteration \<open>i\<close> writes slot \<open>i\<close> of \<^verbatim>\<open>js\<close> and \<^verbatim>\<open>vals\<close>.
\<close>

fun prange_loop ::
  "nat \<Rightarrow> nat list \<Rightarrow> node list \<Rightarrow> nat list \<Rightarrow> real \<Rightarrow> real \<Rightarrow> node list \<Rightarrow> int
     \<Rightarrow> nat list \<Rightarrow> node list list \<Rightarrow> real list list
     \<Rightarrow> (error + (node list list \<times> real list list)) option" where
  "prange_loop fuel indptr indices deg alpha epsilon nodes topk [] js vals =
     Some (Inr (js, vals))"
| "prange_loop fuel indptr indices deg alpha epsilon nodes topk (i # sched) js vals =
     (case calc_ppr_node fuel (nodes ! i) indptr indices deg alpha epsilon of
        None \<Rightarrow> None
      | Some (Inl e) \<Rightarrow> Some (Inl e)
      | Some (Inr jv) \<Rightarrow>
          prange_loop fuel indptr indices deg alpha epsilon nodes topk sched
            (js[i := fst (topk_row topk jv)]) (vals[i := snd (topk_row topk jv)]))"

definition calc_ppr_topk_parallel ::
  "nat \<Rightarrow> nat list \<Rightarrow> nat list \<Rightarrow> node list \<Rightarrow> nat list \<Rightarrow> real \<Rightarrow> real \<Rightarrow> node list \<Rightarrow> int
     \<Rightarrow> (error + (node list list \<times> real list list)) option" where
  "calc_ppr_topk_parallel fuel sched indptr indices deg alpha epsilon nodes topk =
     prange_loop fuel indptr indices deg alpha epsilon nodes topk sched
       (replicate (length nodes) []) (replicate (length nodes) [])"

text \<open>A schedule of \<^verbatim>\<open>prange(n)\<close>: every index below \<open>n\<close>, once.\<close>

definition schedule_of :: "nat \<Rightarrow> nat list \<Rightarrow> bool" where
  "schedule_of n sched \<longleftrightarrow> distinct sched \<and> set sched = set [0..<n]"

subsection \<open>Sparse assembly and normalization\<close>

text \<open>
  A SciPy CSR matrix: row offsets, column ids and stored values. A COO matrix is the list
  of its (row, column, value) entries. The dtypes of the arrays and SciPy's own checks of
  the entries against the shape are not modelled, and \<^verbatim>\<open>.tocsr()\<close> leaves the list of
  entries as it is (the entries come row by row, and a row holds no column twice).
\<close>

record csr =
  csr_indptr :: "nat list"
  csr_indices :: "node list"
  csr_data :: "real list"

type_synonym coo = "(nat \<times> node \<times> real) list"

definition nrows :: "csr \<Rightarrow> nat" where
  "nrows A = length (csr_indptr A) - 1"

text \<open>\<^verbatim>\<open>np.sum(adj_matrix > 0, axis=1).A1\<close>: per row, the number of stored values above 0.\<close>

definition out_degree :: "csr \<Rightarrow> nat list" where
  "out_degree A =
     map (\<lambda>u. length (filter (\<lambda>x. 0 < x)
                 (drop (csr_indptr A ! u) (take (csr_indptr A ! (u + 1)) (csr_data A)))))
       [0..<nrows A]"

text \<open>\<^verbatim>\<open>np.concatenate\<close> of no array at all raises.\<close>

definition construct_sparse :: "node list list \<Rightarrow> real list list \<Rightarrow> error + coo" where
  "construct_sparse neighbors weights =
     (if neighbors = [] then Inl (ValueError ''need at least one array to concatenate'')
      else
        let i = concat (map (\<lambda>k. replicate (length (neighbors ! k)) k) [0..<length neighbors]);
            j = concat neighbors
        in Inr (zip i (zip j (concat weights))))"

definition ppr_topk ::
  "nat \<Rightarrow> nat list \<Rightarrow> csr \<Rightarrow> real \<Rightarrow> real \<Rightarrow> node list \<Rightarrow> int \<Rightarrow> (error + coo) option" where
  "ppr_topk fuel sched adj_matrix alpha epsilon nodes topk =
     (case calc_ppr_topk_parallel fuel sched (csr_indptr adj_matrix) (csr_indices adj_matrix)
             (out_degree adj_matrix) alpha epsilon nodes topk of
        None \<Rightarrow> None
      | Some (Inl e) \<Rightarrow> Some (Inl e)
      | Some (Inr (neighbors, weights)) \<Rightarrow> Some (construct_sparse neighbors weights))"

text \<open>\<^verbatim>\<open>topk_matrix[:n0, n0:]\<close>\<close>

definition sub_block :: "nat \<Rightarrow> coo \<Rightarrow> coo" where
  "sub_block n0 m = map (\<lambda>(i, j, v). (i, j - n0, v)) (filter (\<lambda>(i, j, v). i < n0 \<and> n0 \<le> j) m)"

text \<open>
  \<^verbatim>\<open>topk_ppr_matrix\<close>. Lines 92 to 97 build the combined adjacency \<^verbatim>\<open>A\<close> with torch and
  SciPy calls; the model takes \<^verbatim>\<open>A\<close> and \<^verbatim>\<open>adj_matrix.size(0)\<close> (\<open>n0\<close>) as given. The array
  arithmetic of the \<^verbatim>\<open>'sym'\<close> and \<^verbatim>\<open>'col'\<close> branches (lines 103 to 110 and 113 to 119) is
  NumPy's and is taken as the functions \<open>rescale_sym\<close> and \<open>rescale_col\<close> of \<^verbatim>\<open>A\<close>,
  \<^verbatim>\<open>idx\<close> and the matrix. The order of the statements is the source's: line 99 computes
  the matrix, the chain of line 101 to 123 inspects \<^verbatim>\<open>normalization\<close> afterwards.
\<close>

definition topk_ppr_matrix ::
  "(csr \<Rightarrow> node list \<Rightarrow> coo \<Rightarrow> error + coo) \<Rightarrow> (csr \<Rightarrow> node list \<Rightarrow> coo \<Rightarrow> error + coo)
     \<Rightarrow> nat \<Rightarrow> nat list \<Rightarrow> csr \<Rightarrow> nat \<Rightarrow> bool \<Rightarrow> real \<Rightarrow> real \<Rightarrow> node list \<Rightarrow> int \<Rightarrow> string
     \<Rightarrow> (error + coo) option" where
  "topk_ppr_matrix rescale_sym rescale_col fuel sched A n0 flag alpha eps idx topk normalization =
     (case ppr_topk fuel sched A alpha eps idx topk of
        None \<Rightarrow> None
      | Some (Inl e) \<Rightarrow> Some (Inl e)
      | Some (Inr topk_matrix) \<Rightarrow>
          (case (if normalization = ''sym'' then rescale_sym A idx topk_matrix
                 else if normalization = ''col'' then rescale_col A idx topk_matrix
                 else if normalization = ''row'' then Inr topk_matrix
                 else Inl (ValueError (''Unknown PPR normalization: '' @ normalization))) of
             Inl e \<Rightarrow> Some (Inl e)
           | Inr m \<Rightarrow> Some (Inr (if flag then m else sub_block n0 m))))"

subsection \<open>The class-aggregated variant\<close>

text \<open>
  \<^verbatim>\<open>_calc_gpr_node\<close> runs the same loop from a set of seeds. It is not compiled: the
  degree is a NumPy scalar, and a division by a zero degree gives \<^verbatim>\<open>inf\<close> or
  \<^verbatim>\<open>nan\<close> with a warning instead of raising. The model has no such values and stops
  there with \<^const>\<open>NonFinite\<close>.
\<close>

definition calc_gpr_node ::
  "nat \<Rightarrow> node list \<Rightarrow> nat list \<Rightarrow> node list \<Rightarrow> nat list \<Rightarrow> real \<Rightarrow> real
     \<Rightarrow> (error + (node list \<times> real list)) option" where
  "calc_gpr_node fuel inode_list indptr indices deg alpha epsilon =
     (let alpha_eps = alpha * epsilon;
          p = fold (\<lambda>inode d. AList.update inode 0 d) inode_list [];
          r = fold (\<lambda>inode d. AList.update inode alpha d) inode_list [];
          q = inode_list
      in case push_while fuel indptr indices deg alpha alpha_eps (p, r, q) of
           None \<Rightarrow> None
         | Some (Inl ZeroDivisionError) \<Rightarrow> Some (Inl NonFinite)
         | Some (Inl e) \<Rightarrow> Some (Inl e)
         | Some (Inr st) \<Rightarrow> Some (Inr (keys_values st)))"

text \<open>\<^verbatim>\<open>np.where(train_idx == i)[0]\<close>\<close>

definition where_eq :: "int list \<Rightarrow> int \<Rightarrow> nat list" where
  "where_eq train_idx i = filter (\<lambda>x. train_idx ! x = i) [0..<length train_idx]"

text \<open>
  The loop of \<^verbatim>\<open>calc_gpr_topk_parallel\<close> over the classes that are left. The function
  is not compiled, so \<^verbatim>\<open>numba.prange\<close> is \<^verbatim>\<open>range\<close> and the classes run in order.
\<close>

fun gpr_loop ::
  "nat \<Rightarrow> nat list \<Rightarrow> node list \<Rightarrow> nat list \<Rightarrow> real \<Rightarrow> real \<Rightarrow> int list \<Rightarrow> int
     \<Rightarrow> nat list \<Rightarrow> node list list \<Rightarrow> real list list
     \<Rightarrow> (error + (node list list \<times> real list list)) option" where
  "gpr_loop fuel indptr indices deg alpha epsilon train_idx topk [] js vals =
     Some (Inr (js, vals))"
| "gpr_loop fuel indptr indices deg alpha epsilon train_idx topk (i # rest) js vals =
     (let iter_list = where_eq train_idx (int i)
      in case calc_gpr_node fuel iter_list indptr indices deg alpha epsilon of
           None \<Rightarrow> None
         | Some (Inl e) \<Rightarrow> Some (Inl e)
         | Some (Inr jv) \<Rightarrow>
             gpr_loop fuel indptr indices deg alpha epsilon train_idx topk rest
               (js[i := fst (topk_row topk jv)]) (vals[i := snd (topk_row topk jv)]))"

definition calc_gpr_topk_parallel ::
  "nat \<Rightarrow> nat list \<Rightarrow> node list \<Rightarrow> nat list \<Rightarrow> real \<Rightarrow> real \<Rightarrow> int list \<Rightarrow> int \<Rightarrow> int
     \<Rightarrow> (error + (node list list \<times> real list list)) option" where
  "calc_gpr_topk_parallel fuel indptr indices deg alpha epsilon train_idx cls_size topk =
     gpr_loop fuel indptr indices deg alpha epsilon train_idx topk [0..<nat cls_size]
       (replicate (nat cls_size) []) (replicate (nat cls_size) [])"

text \<open>
  \<^verbatim>\<open>topk_gpr_matrix\<close>; \<^verbatim>\<open>np.max\<close> of an empty array raises. The \<^verbatim>\<open>print\<close> of the
  number of classes is not modelled.
\<close>

definition topk_gpr_matrix ::
  "nat \<Rightarrow> csr \<Rightarrow> real \<Rightarrow> real \<Rightarrow> int list \<Rightarrow> int \<Rightarrow> (error + coo) option" where
  "topk_gpr_matrix fuel adj_matrix alpha eps train_idx topk =
     (if train_idx = [] then
        Some (Inl (ValueError ''zero-size array to reduction operation maximum''))
      else
        let cls_size = Max (set train_idx) + 1
        in case calc_gpr_topk_parallel fuel (csr_indptr adj_matrix) (csr_indices adj_matrix)
                  (out_degree adj_matrix) alpha eps train_idx cls_size topk of
             None \<Rightarrow> None
           | Some (Inl e) \<Rightarrow> Some (Inl e)
           | Some (Inr (neighbors, weights)) \<Rightarrow> Some (construct_sparse neighbors weights))"

section \<open>Properties\<close>

subsection \<open>Dictionary reads and writes\<close>

lemma get0_update: "get0 (AList.update k v d) k' = (if k' = k then v else get0 d k')"
  by (simp add: get0_def update_conv')

lemma get0_add_to: "get0 (add_to d k x) k' = (if k' = k then get0 d k + x else get0 d k')"
  by (simp add: get0_def add_to_def update_conv' split: option.splits)

lemma total_update: "total (AList.update k v d) = total d - get0 d k + v"
  by (induction d) (auto simp: total_def get0_def)

lemma total_add_to: "total (add_to d k x) = total d + x"
  by (simp add: add_to_def total_update get0_def split: option.splits)

lemma nonneg_update: "nonneg d \<Longrightarrow> 0 \<le> v \<Longrightarrow> nonneg (AList.update k v d)"
  by (induction d) (auto simp: nonneg_def)

lemma nonneg_get0: "nonneg d \<Longrightarrow> 0 \<le> get0 d k"
  by (induction d) (auto simp: nonneg_def get0_def)

lemma nonneg_add_to: "nonneg d \<Longrightarrow> 0 \<le> x \<Longrightarrow> nonneg (add_to d k x)"
  using nonneg_get0[of d k]
  by (auto simp: add_to_def get0_def nonneg_update split: option.splits)

lemma nonneg_total: "nonneg d \<Longrightarrow> 0 \<le> total d"
  by (induction d) (auto simp: nonneg_def total_def)



subsection \<open>The neighbour loop\<close>

lemma push_nbrs_ok_deg:
  "push_nbrs deg alpha ae u res vs r q = Inr (r', q') \<Longrightarrow> vs \<noteq> [] \<Longrightarrow> u < length deg \<and> deg ! u \<noteq> 0"
  by (cases vs) (auto split: if_splits simp: Let_def)

lemma push_nbrs_total:
  "push_nbrs deg alpha ae u res vs r q = Inr (r', q') \<Longrightarrow>
   total r' = total r + real (length vs) * ((1 - alpha) * res / real (deg ! u))"
proof (induction vs arbitrary: r q)
  case Nil
  then show ?case by simp
next
  case (Cons v vs)
  let ?val = "(1 - alpha) * res / real (deg ! u)"
  from Cons.prems(1) obtain q1 where
    rec: "push_nbrs deg alpha ae u res vs (add_to r v ?val) q1 = Inr (r', q')"
    by (auto split: if_splits simp: Let_def)
  define val where "val = ?val"
  have "total r' = total (add_to r v val) + real (length vs) * val"
    using Cons.IH[OF rec] by (simp add: val_def)
  also have "\<dots> = total r + real (length (v # vs)) * val"
    by (simp add: total_add_to distrib_right)
  finally show ?case by (simp add: val_def)
qed

lemma push_nbrs_mono:
  "push_nbrs deg alpha ae u res vs r q = Inr (r', q') \<Longrightarrow> 0 \<le> (1 - alpha) * res \<Longrightarrow>
   get0 r k \<le> get0 r' k"
proof (induction vs arbitrary: r q)
  case Nil
  then show ?case by simp
next
  case (Cons v vs)
  let ?val = "(1 - alpha) * res / real (deg ! u)"
  have v0: "0 \<le> ?val" using Cons.prems(2) by simp
  from Cons.prems(1) obtain q1 where
    rec: "push_nbrs deg alpha ae u res vs (add_to r v ?val) q1 = Inr (r', q')"
    by (auto split: if_splits simp: Let_def)
  have "get0 r k \<le> get0 (add_to r v ?val) k" using v0 by (simp add: get0_add_to)
  also have "\<dots> \<le> get0 r' k" using Cons.IH[OF rec Cons.prems(2)] .
  finally show ?case .
qed

lemma push_nbrs_nonneg:
  "push_nbrs deg alpha ae u res vs r q = Inr (r', q') \<Longrightarrow> 0 \<le> (1 - alpha) * res \<Longrightarrow>
   nonneg r \<Longrightarrow> nonneg r'"
proof (induction vs arbitrary: r q)
  case Nil
  then show ?case by simp
next
  case (Cons v vs)
  let ?val = "(1 - alpha) * res / real (deg ! u)"
  have v0: "0 \<le> ?val" using Cons.prems(2) by simp
  from Cons.prems(1) obtain q1 where
    rec: "push_nbrs deg alpha ae u res vs (add_to r v ?val) q1 = Inr (r', q')"
    by (auto split: if_splits simp: Let_def)
  show ?case using Cons.IH[OF rec Cons.prems(2)] nonneg_add_to[OF Cons.prems(3) v0] by simp
qed

lemma push_nbrs_distinct:
  "push_nbrs deg alpha ae u res vs r q = Inr (r', q') \<Longrightarrow> distinct q \<Longrightarrow> distinct q'"
  by (induction vs arbitrary: r q) (auto split: if_splits simp: Let_def)

lemma push_nbrs_q_sub:
  "push_nbrs deg alpha ae u res vs r q = Inr (r', q') \<Longrightarrow> set q \<subseteq> set q' \<and> set q' \<subseteq> set q \<union> set vs"
proof (induction vs arbitrary: r q)
  case Nil
  then show ?case by simp
next
  case (Cons v vs)
  let ?val = "(1 - alpha) * res / real (deg ! u)"
  from Cons.prems(1) obtain q1 where
    rec: "push_nbrs deg alpha ae u res vs (add_to r v ?val) q1 = Inr (r', q')"
    and q1: "q1 = q \<or> q1 = q @ [v]"
    by (auto split: if_splits simp: Let_def)
  from Cons.IH[OF rec] q1 show ?case by auto
qed

lemma push_nbrs_new:
  "push_nbrs deg alpha ae u res vs r q = Inr (r', q') \<Longrightarrow> 0 \<le> (1 - alpha) * res \<Longrightarrow>
   v \<in> set q' \<Longrightarrow> v \<notin> set q \<Longrightarrow> v < length deg \<and> ae * real (deg ! v) \<le> get0 r' v"
proof (induction vs arbitrary: r q)
  case Nil
  then show ?case by simp
next
  case (Cons w vs)
  let ?val = "(1 - alpha) * res / real (deg ! u)"
  let ?r1 = "add_to r w ?val"
  from Cons.prems(1) have wlen: "w < length deg" by (auto split: if_splits simp: Let_def)
  show ?case
  proof (cases "ae * real (deg ! w) \<le> get0 ?r1 w \<and> w \<notin> set q")
    case True
    with Cons.prems(1) have rec: "push_nbrs deg alpha ae u res vs ?r1 (q @ [w]) = Inr (r', q')"
      by (auto split: if_splits simp: Let_def)
    show ?thesis
    proof (cases "v = w")
      case True
      have "get0 ?r1 w \<le> get0 r' w" using push_nbrs_mono[OF rec Cons.prems(2)] .
      with True \<open>ae * real (deg ! w) \<le> get0 ?r1 w \<and> w \<notin> set q\<close> wlen show ?thesis by simp
    next
      case False
      with Cons.prems(4) have "v \<notin> set (q @ [w])" by simp
      from Cons.IH[OF rec Cons.prems(2,3) this] show ?thesis .
    qed
  next
    case False
    with Cons.prems(1) have rec: "push_nbrs deg alpha ae u res vs ?r1 q = Inr (r', q')"
      by (auto split: if_splits simp: Let_def)
    from Cons.IH[OF rec Cons.prems(2,3,4)] show ?thesis .
  qed
qed

lemma consistent_deg_slice:
  "consistent_deg indptr indices deg \<Longrightarrow> u < length deg \<Longrightarrow>
   length (row_slice indptr indices u) = deg ! u"
  by (simp add: consistent_deg_def list_all_iff)

subsection \<open>A popped node of degree 0\<close>

text \<open>
  C5. When the popped node \<open>u\<close> has degree 0 and the degree vector is the one of the CSR
  rows, the iteration raises nothing (no division by \<open>deg[u]\<close> is evaluated), adds the
  residual of \<open>u\<close> to \<open>p[u]\<close>, sets \<open>r[u]\<close> to 0 and changes no other residual, and
  adds no node to the worklist.
\<close>

theorem degree_zero_pop:
  assumes "consistent_deg indptr indices deg"
    and "q \<noteq> []" and "last q < length deg" and "deg ! last q = 0"
  shows "pop_step indptr indices deg alpha alpha_eps (p, r, q) =
           Inr (add_to p (last q) (get0 r (last q)), AList.update (last q) 0 r, butlast q)"
proof -
  have "length (row_slice indptr indices (last q)) = 0"
    using consistent_deg_slice[OF assms(1,3)] assms(4) by simp
  then have "row_slice indptr indices (last q) = []" by simp
  moreover have "\<not> length indptr \<le> last q + 1"
    using assms(1,3) by (simp add: consistent_deg_def)
  ultimately show ?thesis by (simp add: pop_step_def Let_def)
qed

theorem degree_zero_pop_witness:
  "consistent_deg [0, 1, 1] [1] [1, 0] \<and> [1::nat] \<noteq> [] \<and> last [1::nat] < length [1, 0::nat] \<and>
   [1, 0::nat] ! last [1::nat] = 0 \<and>
   pop_step [0, 1, 1] [1] [1, 0] (1 / 2) (1 / 20) ([(0, 1 / 2)], [(0, 0), (1, 1 / 4)], [1]) =
     Inr ([(0, 1 / 2), (1, 1 / 4)], [(0, 0), (1, 0)], [])"
proof -
  have c: "consistent_deg [0, 1, 1] [1] [1, 0]"
    by (simp add: consistent_deg_def row_slice_def upt_rec)
  show ?thesis
    using c degree_zero_pop[OF c, of "[1]" "1 / 2" "1 / 20" "[(0, 1 / 2)]" "[(0, 0), (1, 1 / 4)]"]
    by (simp add: add_to_def get0_def)
qed

subsection \<open>One pop, and the bound on the number of pops\<close>

lemma pop_step_Inr:
  assumes "pop_step indptr indices deg alpha ae (p, r, q) = Inr (p', r', q')"
  shows "p' = add_to p (last q) (get0 r (last q))"
    and "last q + 1 < length indptr"
    and "push_nbrs deg alpha ae (last q) (get0 r (last q)) (row_slice indptr indices (last q))
           (AList.update (last q) 0 r) (butlast q) = Inr (r', q')"
  using assms by (auto simp: pop_step_def Let_def split: if_splits sum.splits)

lemma set_row_slice: "set (row_slice indptr indices u) \<subseteq> set indices"
  unfolding row_slice_def
  by (meson set_drop_subset set_take_subset subset_trans)

lemma floor_step:
  fixes x y c :: real
  assumes "0 < c" "x + c \<le> y" "y \<le> 1"
  shows "nat \<lfloor>(1 - y) / c\<rfloor> + 1 \<le> nat \<lfloor>(1 - x) / c\<rfloor>"
proof -
  have "(1 - x) / c - 1 = (1 - x - c) / c"
    using assms(1) by (simp add: diff_divide_distrib)
  moreover have "(1 - y) / c \<le> (1 - x - c) / c"
    using assms by (intro divide_right_mono) auto
  ultimately have a: "(1 - y) / c \<le> (1 - x) / c - 1" by simp
  have b: "0 \<le> (1 - y) / c" using assms by simp
  have "\<lfloor>(1 - y) / c\<rfloor> \<le> \<lfloor>(1 - x) / c - 1\<rfloor>" using a by (rule floor_mono)
  then have "\<lfloor>(1 - y) / c\<rfloor> + 1 \<le> \<lfloor>(1 - x) / c\<rfloor>" by simp
  moreover have "0 \<le> \<lfloor>(1 - y) / c\<rfloor>" using b by simp
  ultimately show ?thesis by linarith
qed

lemma floor_keep:
  fixes x y c :: real
  assumes "0 < c" "x \<le> y"
  shows "nat \<lfloor>(1 - y) / c\<rfloor> \<le> nat \<lfloor>(1 - x) / c\<rfloor>"
proof -
  have "(1 - y) / c \<le> (1 - x) / c" using assms by (intro divide_right_mono) auto
  then have "\<lfloor>(1 - y) / c\<rfloor> \<le> \<lfloor>(1 - x) / c\<rfloor>" by (rule floor_mono)
  then show ?thesis by linarith
qed

lemma pop_step_inv:
  assumes cd: "consistent_deg indptr indices deg"
    and a: "0 < alpha" "alpha \<le> 1" and c: "0 < c" "c \<le> ae"
    and inv: "push_inv deg indices alpha c s (p, r, q)"
    and ne: "q \<noteq> []"
    and step: "pop_step indptr indices deg alpha ae (p, r, q) = Inr (p', r', q')"
  shows "push_inv deg indices alpha c s (p', r', q')"
    and "pops_left indices c (p', r', q') < pops_left indices c (p, r, q)"
proof -
  let ?u = "last q"
  let ?res = "get0 r ?u"
  let ?r1 = "AList.update ?u 0 r"
  let ?q1 = "butlast q"
  let ?sl = "row_slice indptr indices ?u"
  let ?val = "(1 - alpha) * ?res / real (deg ! ?u)"
  note st = pop_step_Inr[OF step]
  from inv have nn: "nonneg r" and mass: "alpha * total p + total r \<le> alpha"
    and dq: "distinct q" and sub: "set q \<subseteq> insert s (set indices)"
    and big: "\<And>v. v \<in> set q \<Longrightarrow> v < length deg \<Longrightarrow> deg ! v \<noteq> 0 \<Longrightarrow> c \<le> get0 r v"
    by (auto simp: push_inv_def)
  have res0: "0 \<le> ?res" using nn by (rule nonneg_get0)
  have pos: "0 \<le> (1 - alpha) * ?res" using res0 a by simp
  have q_eq: "q = ?q1 @ [?u]" using ne by simp
  have u_notin: "?u \<notin> set ?q1" using dq q_eq by (metis distinct_append disjoint_iff list.set_intros(1) distinct.simps(2) not_distinct_conv_prefix)
  have dq1: "distinct ?q1" using dq by (rule distinct_butlast)
  have nn1: "nonneg ?r1" using nn by (simp add: nonneg_update)
  have tot1: "total ?r1 = total r - ?res" by (simp add: total_update)
  have nn': "nonneg r'" using push_nbrs_nonneg[OF st(3) pos nn1] .
  have tot': "total r' = total r - ?res + real (length ?sl) * ?val"
    using push_nbrs_total[OF st(3)] tot1 by simp
  have totp: "total p' = total p + ?res" using st(1) by (simp add: total_add_to)
  have dq': "distinct q'" using push_nbrs_distinct[OF st(3) dq1] .
  have qsub: "set q' \<subseteq> set ?q1 \<union> set ?sl" using push_nbrs_q_sub[OF st(3)] by simp
  have q1sub: "set ?q1 \<subseteq> set q" by (metis q_eq set_append Un_upper1)
  have sub': "set q' \<subseteq> insert s (set indices)"
    using qsub q1sub sub set_row_slice[of indptr indices ?u] by blast
  have flow: "real (length ?sl) * ?val \<le> (1 - alpha) * ?res"
  proof (cases "?sl = []")
    case True
    then show ?thesis using pos by simp
  next
    case False
    from push_nbrs_ok_deg[OF st(3) False] have ul: "?u < length deg" and dz: "deg ! ?u \<noteq> 0" by auto
    have "length ?sl = deg ! ?u" using consistent_deg_slice[OF cd ul] .
    then show ?thesis using dz by simp
  qed
  have mass': "alpha * total p' + total r' \<le> alpha"
  proof -
    have "alpha * total p' + total r' = alpha * total p + total r - (1 - alpha) * ?res + real (length ?sl) * ?val"
      unfolding totp tot' by (simp add: algebra_simps)
    with flow mass show ?thesis by linarith
  qed
  have big': "c \<le> get0 r' v" if v: "v \<in> set q'" "v < length deg" "deg ! v \<noteq> 0" for v
  proof (cases "v \<in> set ?q1")
    case True
    then have "v \<noteq> ?u" using u_notin by auto
    then have "get0 ?r1 v = get0 r v" by (simp add: get0_update)
    moreover have "c \<le> get0 r v" using big[of v] True q1sub v by auto
    moreover have "get0 ?r1 v \<le> get0 r' v" using push_nbrs_mono[OF st(3) pos] .
    ultimately show ?thesis by linarith
  next
    case False
    from push_nbrs_new[OF st(3) pos v(1) False] have thr: "ae * real (deg ! v) \<le> get0 r' v" by simp
    have "1 \<le> real (deg ! v)" using v(3) by simp
    moreover have "0 < ae" using c by linarith
    ultimately have "ae * 1 \<le> ae * real (deg ! v)" by (intro mult_left_mono) auto
    with thr c show ?thesis by linarith
  qed
  show "push_inv deg indices alpha c s (p', r', q')"
    using nn' mass' dq' sub' big' by (auto simp: push_inv_def)
  have lenq': "length q' \<le> length indices + 1"
  proof -
    have "length q' = card (set q')" using dq' by (simp add: distinct_card)
    also have "\<dots> \<le> card (insert s (set indices))" using sub' by (intro card_mono) auto
    also have "\<dots> \<le> Suc (card (set indices))" by (rule card_insert_le_m1) auto
    also have "\<dots> \<le> length indices + 1" using card_length[of indices] by simp
    finally show ?thesis .
  qed
  show "pops_left indices c (p', r', q') < pops_left indices c (p, r, q)"
  proof (cases "?sl = []")
    case True
    with st(3) have "q' = ?q1" by simp
    then have "length q' < length q" using ne by simp
    moreover have "nat \<lfloor>(1 - total p') / c\<rfloor> \<le> nat \<lfloor>(1 - total p) / c\<rfloor>"
      using floor_keep[OF c(1), of "total p" "total p'"] totp res0 by simp
    then have "nat \<lfloor>(1 - total p') / c\<rfloor> * (length indices + 2)
         \<le> nat \<lfloor>(1 - total p) / c\<rfloor> * (length indices + 2)" by (rule mult_le_mono1)
    ultimately show ?thesis
      unfolding pops_left_def by simp
  next
    case False
    from push_nbrs_ok_deg[OF st(3) False] have ul: "?u < length deg" and dz: "deg ! ?u \<noteq> 0" by auto
    have "?u \<in> set q" using ne by simp
    then have resc: "c \<le> ?res" using big ul dz by blast
    have "0 \<le> total r'" using nn' by (rule nonneg_total)
    then have "alpha * total p' \<le> alpha * 1" using mass' by simp
    then have p1: "total p' \<le> 1" using a(1) by (simp only: mult_le_cancel_left_pos)
    have "nat \<lfloor>(1 - total p') / c\<rfloor> + 1 \<le> nat \<lfloor>(1 - total p) / c\<rfloor>"
      using floor_step[OF c(1) _ p1, of "total p"] totp resc by simp
    then have "(nat \<lfloor>(1 - total p') / c\<rfloor> + 1) * (length indices + 2)
         \<le> nat \<lfloor>(1 - total p) / c\<rfloor> * (length indices + 2)" by (rule mult_le_mono1)
    then show ?thesis using lenq' unfolding pops_left_def by simp
  qed
qed

lemma push_while_terminates:
  assumes cd: "consistent_deg indptr indices deg"
    and a: "0 < alpha" "alpha \<le> 1" and c: "0 < c" "c \<le> ae"
  shows "push_inv deg indices alpha c s st \<Longrightarrow> pops_left indices c st \<le> fuel \<Longrightarrow>
         push_while fuel indptr indices deg alpha ae st \<noteq> None"
proof (induction fuel arbitrary: st)
  case 0
  obtain p r q where st: "st = (p, r, q)" by (cases st) auto
  with 0 show ?case by (simp add: pops_left_def)
next
  case (Suc fuel)
  obtain p r q where st: "st = (p, r, q)" by (cases st) auto
  show ?case
  proof (cases "q = []")
    case True
    then show ?thesis by (simp add: st)
  next
    case False
    show ?thesis
    proof (cases "pop_step indptr indices deg alpha ae st")
      case (Inl e)
      then show ?thesis using False by (simp add: st)
    next
      case (Inr st')
      obtain p' r' q' where st': "st' = (p', r', q')" by (cases st') auto
      note stp = Inr[unfolded st st']
      have i': "push_inv deg indices alpha c s st'"
        using pop_step_inv(1)[OF cd a c Suc.prems(1)[unfolded st] False stp] by (simp add: st')
      have "pops_left indices c st' < pops_left indices c st"
        using pop_step_inv(2)[OF cd a c Suc.prems(1)[unfolded st] False stp] by (simp add: st st')
      then have "pops_left indices c st' \<le> fuel" using Suc.prems(2) by simp
      from Suc.IH[OF i' this] show ?thesis using False Inr by (simp add: st)
    qed
  qed
qed

lemma push_inv_init:
  assumes "0 < alpha" "c \<le> alpha"
  shows "push_inv deg indices alpha c s (init_state s alpha)"
  using assms by (simp add: push_inv_def init_state_def nonneg_def total_def get0_def)

lemma push_inv_length:
  assumes "push_inv deg indices alpha c s (p, r, q)"
  shows "length q \<le> length indices + 1"
proof -
  from assms have dq: "distinct q" and sub: "set q \<subseteq> insert s (set indices)"
    by (auto simp: push_inv_def)
  have "length q = card (set q)" using dq by (simp add: distinct_card)
  also have "\<dots> \<le> card (insert s (set indices))" using sub by (intro card_mono) auto
  also have "\<dots> \<le> Suc (card (set indices))" by (rule card_insert_le_m1) auto
  also have "\<dots> \<le> length indices + 1" using card_length[of indices] by simp
  finally show ?thesis .
qed

lemma after_pops_measure:
  assumes cd: "consistent_deg indptr indices deg"
    and a: "0 < alpha" "alpha \<le> 1" and c: "0 < c" "c \<le> ae"
  shows "push_inv deg indices alpha c s st \<Longrightarrow>
         after_pops k indptr indices deg alpha ae st = Some st' \<Longrightarrow>
         push_inv deg indices alpha c s st' \<and> pops_left indices c st' + k \<le> pops_left indices c st"
proof (induction k arbitrary: st)
  case 0
  then show ?case by simp
next
  case (Suc k)
  obtain p r q where st: "st = (p, r, q)" by (cases st) auto
  from Suc.prems(2) have ne: "q \<noteq> []" by (auto simp: st split: if_splits)
  from Suc.prems(2) ne obtain st1 where
    stp: "pop_step indptr indices deg alpha ae st = Inr st1"
    and rest: "after_pops k indptr indices deg alpha ae st1 = Some st'"
    by (auto simp: st split: sum.splits)
  obtain p1 r1 q1 where st1: "st1 = (p1, r1, q1)" by (cases st1) auto
  note stp' = stp[unfolded st st1]
  have i1: "push_inv deg indices alpha c s st1"
    using pop_step_inv(1)[OF cd a c Suc.prems(1)[unfolded st] ne stp'] by (simp add: st1)
  have m1: "pops_left indices c st1 < pops_left indices c st"
    using pop_step_inv(2)[OF cd a c Suc.prems(1)[unfolded st] ne stp'] by (simp add: st st1)
  from Suc.IH[OF i1 rest] m1 show ?case by simp
qed

lemma pops_left_init:
  "pops_left indices (min alpha (alpha * epsilon)) (init_state s alpha) =
     pop_bound indices alpha epsilon"
  by (simp add: pops_left_def init_state_def pop_bound_def total_def)

subsection \<open>Termination\<close>

text \<open>
  Termination in exact arithmetic. On a graph whose degree vector is the one of its CSR
  rows, for every seed, every \<open>alpha\<close> in (0,1) and every \<open>epsilon > 0\<close>, the loop of the
  real-valued model ends (with a result or an error) within \<open>pop_bound\<close> pops. This is a
  fact about the algorithm without rounding; it says nothing about a run in which
  \<^verbatim>\<open>float32\<close> rounds a threshold or a residual.
\<close>

lemma exact_termination:
  assumes "consistent_deg indptr indices deg" and "0 < alpha" and "alpha < 1" and "0 < epsilon"
  shows "(\<forall>fuel. pop_bound indices alpha epsilon \<le> fuel \<longrightarrow>
            calc_ppr_node fuel inode indptr indices deg alpha epsilon \<noteq> None) \<and>
         (\<forall>k p r q.
            after_pops k indptr indices deg alpha (alpha * epsilon) (init_state inode alpha)
              = Some (p, r, q) \<longrightarrow>
            k \<le> pop_bound indices alpha epsilon \<and> length q \<le> length indices + 1)"
proof -
  define c where "c = min alpha (alpha * epsilon)"
  have c: "0 < c" "c \<le> alpha * epsilon" and ca: "c \<le> alpha"
    using assms(2,4) by (simp_all add: c_def)
  have a1: "alpha \<le> 1" using assms(3) by simp
  have i0: "push_inv deg indices alpha c inode (init_state inode alpha)"
    using push_inv_init[OF assms(2) ca] .
  have m0: "pops_left indices c (init_state inode alpha) = pop_bound indices alpha epsilon"
    unfolding c_def by (rule pops_left_init)
  have "calc_ppr_node fuel inode indptr indices deg alpha epsilon \<noteq> None"
    if "pop_bound indices alpha epsilon \<le> fuel" for fuel
  proof -
    have "push_while fuel indptr indices deg alpha (alpha * epsilon) (init_state inode alpha) \<noteq> None"
      using push_while_terminates[OF assms(1,2) a1 c i0] m0 that by simp
    then show ?thesis by (auto simp: calc_ppr_node_def split: option.splits sum.splits)
  qed
  moreover have "k \<le> pop_bound indices alpha epsilon \<and> length q \<le> length indices + 1"
    if "after_pops k indptr indices deg alpha (alpha * epsilon) (init_state inode alpha)
          = Some (p, r, q)" for k p r q
  proof -
    from after_pops_measure[OF assms(1,2) a1 c i0 that]
    have "push_inv deg indices alpha c inode (p, r, q)"
      and "pops_left indices c (p, r, q) + k \<le> pop_bound indices alpha epsilon"
      using m0 by simp_all
    then show ?thesis using push_inv_length by fastforce
  qed
  ultimately show ?thesis by blast
qed

lemma exact_termination_example:
  "consistent_deg [0, 2, 4, 6, 8] [1, 3, 0, 2, 1, 3, 0, 2] [2, 2, 2, 2] \<and>
   (0::real) < 1 / 2 \<and> (1::real) / 2 < 1 \<and> (0::real) < 1 / 1000 \<and>
   pop_bound [1, 3, 0, 2, 1, 3, 0, 2] (1 / 2) (1 / 1000) = 20001 \<and>
   calc_ppr_node 20001 0 [0, 2, 4, 6, 8] [1, 3, 0, 2, 1, 3, 0, 2] [2, 2, 2, 2] (1 / 2) (1 / 1000)
     \<noteq> None"
proof -
  have c: "consistent_deg [0, 2, 4, 6, 8] [1, 3, 0, 2, 1, 3, 0, 2] [2, 2, 2, 2]"
    by (simp add: consistent_deg_def row_slice_def upt_rec)
  have b: "pop_bound [1, 3, 0, 2, 1, 3, 0, 2] (1 / 2) (1 / 1000) = 20001"
    by (simp add: pop_bound_def)
  show ?thesis
    using c b exact_termination[OF c, of "1 / 2" "1 / 1000" 0] by simp
qed

lemma self_loop_forever:
  "push_while fuel [0, 2] [0, 0] [1] (1 / 2) (1 / 4) ([(0, P)], [(0, 1 / 2)], [0]) = None"
proof (induction fuel arbitrary: P)
  case 0
  show ?case by simp
next
  case (Suc fuel)
  have "pop_step [0, 2] [0, 0] [1] (1 / 2) (1 / 4) ([(0, P)], [(0, 1 / 2)], [0])
          = Inr ([(0, P + 1 / 2)], [(0, 1 / 2)], [0])"
    by (simp add: pop_step_def row_slice_def get0_def add_to_def Let_def)
  then show ?case using Suc[of "P + 1 / 2"] by simp
qed

subsection \<open>Invariants of the loop, and the seed's entry\<close>


lemma after_pops_inv:
  assumes pres: "\<And>p r q p' r' q'. I (p, r, q) \<Longrightarrow> q \<noteq> [] \<Longrightarrow>
      pop_step indptr indices deg alpha ae (p, r, q) = Inr (p', r', q') \<Longrightarrow> I (p', r', q')"
  shows "I st \<Longrightarrow> after_pops k indptr indices deg alpha ae st = Some st' \<Longrightarrow> I st'"
proof (induction k arbitrary: st)
  case 0
  then show ?case by simp
next
  case (Suc k)
  obtain p r q where st: "st = (p, r, q)" by (cases st) auto
  from Suc.prems(2) have ne: "q \<noteq> []" by (auto simp: st split: if_splits)
  from Suc.prems(2) ne obtain st1 where
    stp: "pop_step indptr indices deg alpha ae st = Inr st1"
    and rest: "after_pops k indptr indices deg alpha ae st1 = Some st'"
    by (auto simp: st split: sum.splits)
  obtain p1 r1 q1 where st1: "st1 = (p1, r1, q1)" by (cases st1) auto
  have "I st1" using pres[OF Suc.prems(1)[unfolded st] ne stp[unfolded st st1]] by (simp add: st1)
  from Suc.IH[OF this rest] show ?case .
qed





subsection \<open>The worklist, and runs that do not end\<close>

lemma pop_step_worklist:
  assumes "distinct q \<and> set q \<subseteq> insert s (set indices)"
    and "pop_step indptr indices deg alpha ae (p, r, q) = Inr (p', r', q')"
  shows "distinct q' \<and> set q' \<subseteq> insert s (set indices)"
proof -
  note st = pop_step_Inr[OF assms(2)]
  have d: "distinct q'"
    using push_nbrs_distinct[OF st(3) distinct_butlast] assms(1) by blast
  have "set q' \<subseteq> set (butlast q) \<union> set (row_slice indptr indices (last q))"
    using push_nbrs_q_sub[OF st(3)] by simp
  moreover have "set (butlast q) \<subseteq> set q" by (auto dest: in_set_butlastD)
  ultimately have "set q' \<subseteq> insert s (set indices)"
    using assms(1) set_row_slice[of indptr indices "last q"] by blast
  with d show ?thesis by simp
qed

lemma worklist_card:
  assumes "distinct q" and "set q \<subseteq> insert s (set indices)"
  shows "length q \<le> length indices + 1"
proof -
  have "length q = card (set q)" using assms(1) by (simp add: distinct_card)
  also have "\<dots> \<le> card (insert s (set indices))" using assms(2) by (intro card_mono) auto
  also have "\<dots> \<le> Suc (card (set indices))" by (rule card_insert_le_m1) auto
  also have "\<dots> \<le> length indices + 1" using card_length[of indices] by simp
  finally show ?thesis .
qed

text \<open>
  C6, as the code has it. At every step of the push computation, for every graph, seed,
  \<open>alpha\<close> and threshold factor, the worklist is finite: it holds no node twice, only
  the seed and column ids, and so at most \<open>length indices + 1\<close> nodes. That the loop ends
  is not part of what the code guarantees (see the runs below).
\<close>

theorem worklist_bounded:
  assumes "after_pops k indptr indices deg alpha alpha_eps (init_state inode alpha) = Some (p, r, q)"
  shows "distinct q \<and> set q \<subseteq> insert inode (set indices) \<and> length q \<le> length indices + 1"
proof -
  let ?W = "\<lambda>st. case st of (p, r, q) \<Rightarrow> distinct q \<and> set q \<subseteq> insert inode (set indices)"
  have w0: "?W (init_state inode alpha)" by (simp add: init_state_def)
  have pres: "?W (p', r', q')"
    if "?W (p, r, q)" "q \<noteq> []" "pop_step indptr indices deg alpha alpha_eps (p, r, q) = Inr (p', r', q')"
    for p r q p' r' q'
  proof -
    have i: "distinct q \<and> set q \<subseteq> insert inode (set indices)"
      using that(1) unfolding prod.case .
    show ?thesis unfolding prod.case by (rule pop_step_worklist[OF i that(3)])
  qed
  have "?W (p, r, q)"
    by (rule after_pops_inv[where I = ?W, OF pres w0 assms])
  then have w: "distinct q \<and> set q \<subseteq> insert inode (set indices)" unfolding prod.case .
  with worklist_card[of q inode indices] show ?thesis by blast
qed

theorem worklist_bounded_witness:
  "after_pops 2 [0, 2, 4, 6, 8] [1, 3, 0, 2, 1, 3, 0, 2] [2, 2, 2, 2] (1 / 2) 0
       (init_state 0 (1 / 2))
     = Some ([(0, 1 / 2), (3, 1 / 8)], [(0, 1 / 32), (1, 1 / 8), (3, 0), (2, 1 / 32)], [1, 0, 2]) \<and>
   distinct [1, 0, 2::nat] \<and> length [1, 0, 2::nat] \<le> length [1, 3, 0, 2, 1, 3, 0, 2::nat] + 1"
proof -
  have run: "after_pops 2 [0, 2, 4, 6, 8] [1, 3, 0, 2, 1, 3, 0, 2] [2, 2, 2, 2] (1 / 2) 0
       (init_state 0 (1 / 2))
     = Some ([(0, 1 / 2), (3, 1 / 8)], [(0, 1 / 32), (1, 1 / 8), (3, 0), (2, 1 / 32)], [1, 0, 2])"
    by code_simp
  from worklist_bounded[OF run] run show ?thesis by blast
qed

lemma zero_threshold_forever:
  assumes a: "0 \<le> alpha" "alpha \<le> 1"
  shows "nonneg r \<Longrightarrow> u = 0 \<or> u = 1 \<Longrightarrow>
         push_while fuel [0, 1, 2] [1, 0] [1, 1] alpha 0 (p, r, [u]) = None"
proof (induction fuel arbitrary: p r u)
  case 0
  show ?case by simp
next
  case (Suc fuel)
  define v :: nat where "v = 1 - u"
  define val where "val = (1 - alpha) * get0 r u"
  define r2 where "r2 = add_to (AList.update u 0 r) v val"
  have sl: "row_slice [0, 1, 2] [1, 0] u = [v]"
    using Suc.prems(2) by (auto simp: row_slice_def v_def)
  have v01: "v = 0 \<or> v = 1" using Suc.prems(2) by (auto simp: v_def)
  have val0: "0 \<le> val" using a nonneg_get0[OF Suc.prems(1), of u] by (simp add: val_def)
  have nn2: "nonneg r2"
    unfolding r2_def using Suc.prems(1) val0 by (intro nonneg_add_to nonneg_update) auto
  have g: "0 \<le> get0 r2 v" using nn2 by (rule nonneg_get0)
  have push: "push_nbrs [1, 1] alpha 0 u (get0 r u) [v] (AList.update u 0 r) [] = Inr (r2, [v])"
    using Suc.prems(2) v01 g by (auto simp: Let_def r2_def val_def)
  have ip: "\<not> length [0, 1, 2::nat] \<le> u + 1" using Suc.prems(2) by auto
  have step1: "pop_step [0, 1, 2] [1, 0] [1, 1] alpha 0 (p, r, [u])
          = (case push_nbrs [1, 1] alpha 0 u (get0 r u) (row_slice [0, 1, 2] [1, 0] u)
                    (AList.update u 0 r) [] of
               Inl e \<Rightarrow> Inl e
             | Inr (r2, q2) \<Rightarrow> Inr (add_to p u (get0 r u), r2, q2))"
    using ip by (simp add: pop_step_def Let_def split: sum.splits prod.splits del: push_nbrs.simps)
  have "pop_step [0, 1, 2] [1, 0] [1, 1] alpha 0 (p, r, [u])
          = Inr (add_to p u (get0 r u), r2, [v])"
    unfolding step1 sl push by simp
  then show ?case using Suc.IH[OF nn2 v01] by simp
qed

text \<open>
  C6, as stated, fails: the loop need not end. First, with one node whose row holds two
  entries (both the node itself) and the degree 1, \<open>alpha = 1/2\<close> and \<open>epsilon = 1/2\<close>,
  every pop forwards twice half of the residual back to the node, the state repeats and
  the loop never ends. Second, on the graph with the one undirected edge 0 - 1 (degrees
  consistent) and \<open>alpha = 1 / 2 ^ 100\<close>, with the threshold factor 0, which is the value
  of the \<^verbatim>\<open>float32\<close> product \<open>alpha * epsilon\<close> of line 10 for \<open>epsilon = 1 / 2 ^ 100\<close>:
  every threshold is 0, each pop enqueues the other node, and the loop never ends. (In
  this second run \<^verbatim>\<open>float32\<close> rounds the residuals, which stay non-negative; the worklist
  is the same.)
\<close>

theorem worklist_bounded_counterexample:
  "\<not> consistent_deg [0, 2] [0, 0] [1] \<and>
   (\<forall>fuel. calc_ppr_node fuel 0 [0, 2] [0, 0] [1] (1 / 2) (1 / 2) = None) \<and>
   consistent_deg [0, 1, 2] [1, 0] [1, 1] \<and> (0::real) < 1 / 2 ^ 100 \<and> (1::real) / 2 ^ 100 < 1 \<and>
   (\<forall>fuel. push_while fuel [0, 1, 2] [1, 0] [1, 1] (1 / 2 ^ 100) 0 (init_state 0 (1 / 2 ^ 100))
             = None)"
proof -
  have a: "\<not> consistent_deg [0, 2] [0, 0] [1]"
    by (simp add: consistent_deg_def row_slice_def)
  have b: "calc_ppr_node fuel 0 [0, 2] [0, 0] [1] (1 / 2) (1 / 2) = None" for fuel
    using self_loop_forever[of fuel 0] by (simp add: calc_ppr_node_def init_state_def)
  have c: "consistent_deg [0, 1, 2] [1, 0] [1, 1]"
    by (simp add: consistent_deg_def row_slice_def upt_rec)
  have d: "(0::real) \<le> 1 / 2 ^ 100" "(1::real) / 2 ^ 100 \<le> 1" "(0::real) < 1 / 2 ^ 100"
    "(1::real) / 2 ^ 100 < 1"
    by simp_all
  have nn: "nonneg [(0, 1 / 2 ^ 100)]" unfolding nonneg_def using d(1) by simp
  have e: "push_while fuel [0, 1, 2] [1, 0] [1, 1] (1 / 2 ^ 100) 0 (init_state 0 (1 / 2 ^ 100))
             = None" for fuel
    unfolding init_state_def by (rule zero_threshold_forever[OF d(1,2) nn]) simp
  from a b c d(3,4) e show ?thesis by blast
qed

subsection \<open>Conservation of mass\<close>

lemma pop_step_mass:
  assumes cd: "consistent_deg indptr indices deg" and nz: "0 \<notin> set deg"
    and step: "pop_step indptr indices deg alpha ae (p, r, q) = Inr (p', r', q')"
  shows "total p' = total p + get0 r (last q)"
    and "total r' = total r - alpha * get0 r (last q)"
proof -
  let ?u = "last q"
  let ?res = "get0 r ?u"
  let ?sl = "row_slice indptr indices ?u"
  note st = pop_step_Inr[OF step]
  have ul: "?u < length deg" using st(2) cd by (simp add: consistent_deg_def)
  then have dz: "deg ! ?u \<noteq> 0" using nz by (metis nth_mem)
  have len: "length ?sl = deg ! ?u" using consistent_deg_slice[OF cd ul] .
  show "total p' = total p + ?res" using st(1) by (simp add: total_add_to)
  have "total r' = total (AList.update ?u 0 r) + real (length ?sl) * ((1 - alpha) * ?res / real (deg ! ?u))"
    using push_nbrs_total[OF st(3)] .
  also have "\<dots> = total r - ?res + (1 - alpha) * ?res"
    using dz by (simp add: total_update len)
  also have "\<dots> = total r - alpha * ?res" by (simp add: algebra_simps)
  finally show "total r' = total r - alpha * ?res" .
qed

lemma pop_step_nonneg_r:
  assumes a: "0 \<le> alpha" "alpha \<le> 1" and nr: "nonneg r"
    and step: "pop_step indptr indices deg alpha ae (p, r, q) = Inr (p', r', q')"
  shows "nonneg r'"
proof -
  note st = pop_step_Inr[OF step]
  have res0: "0 \<le> get0 r (last q)" using nr by (rule nonneg_get0)
  have pos: "0 \<le> (1 - alpha) * get0 r (last q)" using res0 a by simp
  have "nonneg (AList.update (last q) 0 r)" using nr by (simp add: nonneg_update)
  from push_nbrs_nonneg[OF st(3) pos this] show ?thesis .
qed

text \<open>
  C1, as the code has it. The conserved quantity is \<open>alpha * sum(p) + sum(r)\<close>, not
  \<open>sum(p) + sum(r)\<close>: on a graph whose degree vector is the one of its CSR rows and
  that has no node of degree 0, it equals \<open>alpha\<close> after every pop; and for \<open>alpha\<close> in
  [0,1] the next pop never raises \<open>sum(r)\<close> (it lowers it by \<open>alpha\<close> times the popped
  residual).
\<close>

theorem mass_conservation:
  assumes "consistent_deg indptr indices deg" and "0 \<notin> set deg"
  shows "\<forall>k p r q.
           after_pops k indptr indices deg alpha (alpha * epsilon) (init_state s alpha)
             = Some (p, r, q) \<longrightarrow>
           alpha * total p + total r = alpha \<and>
           (0 \<le> alpha \<and> alpha \<le> 1 \<longrightarrow>
              (\<forall>p' r' q'. pop_step indptr indices deg alpha (alpha * epsilon) (p, r, q)
                              = Inr (p', r', q') \<longrightarrow> total r' \<le> total r))"
proof (intro allI impI)
  fix k p r q
  assume run: "after_pops k indptr indices deg alpha (alpha * epsilon) (init_state s alpha)
                 = Some (p, r, q)"
  let ?I = "\<lambda>st. case st of (p, r, q) \<Rightarrow>
              alpha * total p + total r = alpha \<and> (0 \<le> alpha \<and> alpha \<le> 1 \<longrightarrow> nonneg r)"
  have i0: "?I (init_state s alpha)"
    by (simp add: init_state_def total_def nonneg_def)
  have pres: "?I (p', r', q')"
    if "?I (p, r, q)" "q \<noteq> []"
      "pop_step indptr indices deg alpha (alpha * epsilon) (p, r, q) = Inr (p', r', q')"
    for p r q p' r' q'
  proof -
    from pop_step_mass[OF assms that(3)] that(1)
    have "alpha * total p' + total r' = alpha" by (simp add: algebra_simps)
    moreover have "nonneg r'" if "0 \<le> alpha" "alpha \<le> 1"
      using pop_step_nonneg_r[OF that _ \<open>pop_step indptr indices deg alpha (alpha * epsilon) (p, r, q) = Inr (p', r', q')\<close>]
        \<open>?I (p, r, q)\<close> that by simp
    ultimately show ?thesis by simp
  qed
  have fin: "?I (p, r, q)"
    by (rule after_pops_inv[where I = ?I, OF _ i0 run]) (rule pres)
  have "total r' \<le> total r"
    if a: "0 \<le> alpha \<and> alpha \<le> 1"
      and stp: "pop_step indptr indices deg alpha (alpha * epsilon) (p, r, q) = Inr (p', r', q')"
    for p' r' q'
  proof -
    have "nonneg r" using fin a by simp
    then have "0 \<le> get0 r (last q)" by (rule nonneg_get0)
    then have "0 \<le> alpha * get0 r (last q)" using a by simp
    with pop_step_mass(2)[OF assms stp] show ?thesis by simp
  qed
  with fin show "alpha * total p + total r = alpha \<and>
           (0 \<le> alpha \<and> alpha \<le> 1 \<longrightarrow>
              (\<forall>p' r' q'. pop_step indptr indices deg alpha (alpha * epsilon) (p, r, q)
                              = Inr (p', r', q') \<longrightarrow> total r' \<le> total r))"
    by simp
qed

theorem mass_conservation_witness:
  "consistent_deg [0, 2, 4, 6, 8] [1, 3, 0, 2, 1, 3, 0, 2] [2, 2, 2, 2] \<and>
   0 \<notin> set [2, 2, 2, 2::nat] \<and>
   after_pops 2 [0, 2, 4, 6, 8] [1, 3, 0, 2, 1, 3, 0, 2] [2, 2, 2, 2] (1 / 2) (1 / 2 * (1 / 1000))
       (init_state 0 (1 / 2))
     = Some ([(0, 1 / 2), (3, 1 / 8)], [(0, 1 / 32), (1, 1 / 8), (3, 0), (2, 1 / 32)], [1, 0, 2]) \<and>
   1 / 2 * total [(0, 1 / 2), (3, 1 / 8)] + total [(0, 1 / 32), (1, 1 / 8), (3, 0), (2, 1 / 32)]
     = 1 / 2 \<and>
   pop_step [0, 2, 4, 6, 8] [1, 3, 0, 2, 1, 3, 0, 2] [2, 2, 2, 2] (1 / 2) (1 / 2 * (1 / 1000))
       ([(0, 1 / 2), (3, 1 / 8)], [(0, 1 / 32), (1, 1 / 8), (3, 0), (2, 1 / 32)], [1, 0, 2])
     = Inr ([(0, 1 / 2), (3, 1 / 8), (2, 1 / 32)],
            [(0, 1 / 32), (1, 17 / 128), (3, 1 / 128), (2, 0)], [1, 0, 3]) \<and>
   total [(0, 1 / 32), (1, 17 / 128), (3, 1 / 128), (2, 0)]
     \<le> total [(0, 1 / 32), (1, 1 / 8), (3, 0), (2, 1 / 32)]"
proof -
  have c: "consistent_deg [0, 2, 4, 6, 8] [1, 3, 0, 2, 1, 3, 0, 2] [2, 2, 2, 2]"
    by (simp add: consistent_deg_def row_slice_def upt_rec)
  have nz: "0 \<notin> set [2, 2, 2, 2::nat]" by simp
  have run: "after_pops 2 [0, 2, 4, 6, 8] [1, 3, 0, 2, 1, 3, 0, 2] [2, 2, 2, 2] (1 / 2)
         (1 / 2 * (1 / 1000)) (init_state 0 (1 / 2))
     = Some ([(0, 1 / 2), (3, 1 / 8)], [(0, 1 / 32), (1, 1 / 8), (3, 0), (2, 1 / 32)], [1, 0, 2])"
    by code_simp
  have stp: "pop_step [0, 2, 4, 6, 8] [1, 3, 0, 2, 1, 3, 0, 2] [2, 2, 2, 2] (1 / 2)
         (1 / 2 * (1 / 1000))
         ([(0, 1 / 2), (3, 1 / 8)], [(0, 1 / 32), (1, 1 / 8), (3, 0), (2, 1 / 32)], [1, 0, 2])
     = Inr ([(0, 1 / 2), (3, 1 / 8), (2, 1 / 32)],
            [(0, 1 / 32), (1, 17 / 128), (3, 1 / 128), (2, 0)], [1, 0, 3])"
    by code_simp
  have "1 / 2 * total [(0, 1 / 2), (3, 1 / 8)] + total [(0, 1 / 32), (1, 1 / 8), (3, 0), (2, 1 / 32)]
          = 1 / 2 \<and>
        total [(0, 1 / 32), (1, 17 / 128), (3, 1 / 128), (2, 0)]
          \<le> total [(0, 1 / 32), (1, 1 / 8), (3, 0), (2, 1 / 32)]"
    using mass_conservation[OF c nz, of "1 / 2" "1 / 1000" 0] run stp by fastforce
  with c nz run stp show ?thesis by blast
qed

text \<open>
  C1, as stated, fails: on the ring of 4 nodes with \<open>alpha = 1/2\<close>, after the first pop
  \<open>sum(p) + sum(r) = 3/4\<close>, not \<open>1/2\<close>.
\<close>

theorem mass_sum_counterexample:
  "after_pops 1 [0, 2, 4, 6, 8] [1, 3, 0, 2, 1, 3, 0, 2] [2, 2, 2, 2] (1 / 2) (1 / 2 * (1 / 1000))
       (init_state 0 (1 / 2))
     = Some ([(0, 1 / 2)], [(0, 0), (1, 1 / 8), (3, 1 / 8)], [1, 3]) \<and>
   total [(0, 1 / 2)] + total [(0, 0), (1, 1 / 8), (3, 1 / 8)] = 3 / 4 \<and>
   total [(0, 1 / 2)] + total [(0, 0), (1, 1 / 8), (3, 1 / 8)] \<noteq> 1 / 2"
  by code_simp

subsection \<open>Restart probability 1\<close>

lemma push_nbrs_alpha1:
  assumes "\<forall>k. get0 r k = 0" and "0 < ae"
    and "\<forall>v\<in>set vs. v < length deg \<and> deg ! v \<noteq> 0"
    and "vs \<noteq> [] \<longrightarrow> u < length deg \<and> deg ! u \<noteq> 0"
  shows "\<exists>r'. push_nbrs deg 1 ae u res vs r q = Inr (r', q)"
  using assms
proof (induction vs arbitrary: r)
  case Nil
  then show ?case by simp
next
  case (Cons v vs)
  let ?r1 = "add_to r v 0"
  have z1: "\<forall>k. get0 ?r1 k = 0" using Cons.prems(1) by (simp add: get0_add_to)
  have u: "u < length deg" "deg ! u \<noteq> 0" using Cons.prems(4) by auto
  have v: "v < length deg" "deg ! v \<noteq> 0" using Cons.prems(3) by auto
  have "0 < ae * real (deg ! v)" using Cons.prems(2) v(2) by simp
  then have no: "\<not> ae * real (deg ! v) \<le> get0 ?r1 v" using z1 by simp
  have rest: "\<forall>v\<in>set vs. v < length deg \<and> deg ! v \<noteq> 0" using Cons.prems(3) by simp
  have "\<exists>r'. push_nbrs deg 1 ae u res vs ?r1 q = Inr (r', q)"
    using Cons.IH[OF z1 Cons.prems(2) rest] u by simp
  then show ?case using u v no by (simp add: Let_def)
qed

text \<open>
  C2, as the code has it. For \<open>alpha = 1\<close> and \<open>epsilon > 0\<close>, on a graph whose degree
  vector is the one of its CSR rows, a seed all of whose out-neighbours have a degree
  above 0 gives exactly \<open>{s: 1}\<close>, after one pop.
\<close>

theorem exact_restart:
  assumes "consistent_deg indptr indices deg" and "s < length deg" and "0 < epsilon"
    and "\<forall>v\<in>set (row_slice indptr indices s). v < length deg \<and> deg ! v \<noteq> 0"
    and "0 < fuel"
  shows "calc_ppr_node fuel s indptr indices deg 1 epsilon = Some (Inr ([s], [1]))"
proof -
  let ?sl = "row_slice indptr indices s"
  have len: "length ?sl = deg ! s" using consistent_deg_slice[OF assms(1,2)] .
  have u: "?sl \<noteq> [] \<longrightarrow> s < length deg \<and> deg ! s \<noteq> 0" using assms(2) by (auto simp: len[symmetric])
  have z: "\<forall>k. get0 [(s, 0)] k = 0" by (simp add: get0_def)
  obtain r' where push: "push_nbrs deg 1 epsilon s 1 ?sl [(s, 0)] [] = Inr (r', [])"
    using push_nbrs_alpha1[OF z assms(3,4) u] by blast
  have ip: "\<not> length indptr \<le> s + 1" using assms(1,2) by (simp add: consistent_deg_def)
  have step: "pop_step indptr indices deg 1 epsilon (init_state s 1) = Inr ([(s, 1)], r', [])"
    using push ip by (simp add: pop_step_def init_state_def get0_def add_to_def)
  obtain n where n: "fuel = Suc n" using assms(5) by (cases fuel) auto
  have "push_while n indptr indices deg 1 epsilon ([(s, 1)], r', []) = Some (Inr ([(s, 1)], r', []))"
    by (cases n) simp_all
  then have "push_while fuel indptr indices deg 1 epsilon (init_state s 1)
               = Some (Inr ([(s, 1)], r', []))"
    using step by (simp add: n init_state_def)
  then show ?thesis by (simp add: calc_ppr_node_def keys_values_def)
qed

theorem exact_restart_witness:
  "consistent_deg [0, 2, 4, 6, 8] [1, 3, 0, 2, 1, 3, 0, 2] [2, 2, 2, 2] \<and>
   (0::nat) < length [2, 2, 2, 2::nat] \<and> (0::real) < 1 / 1000 \<and> (0::nat) < 1 \<and>
   row_slice [0, 2, 4, 6, 8] [1, 3, 0, 2, 1, 3, 0, 2] 0 = [1, 3] \<and>
   calc_ppr_node 1 0 [0, 2, 4, 6, 8] [1, 3, 0, 2, 1, 3, 0, 2] [2, 2, 2, 2] 1 (1 / 1000)
     = Some (Inr ([0], [1]))"
proof -
  have c: "consistent_deg [0, 2, 4, 6, 8] [1, 3, 0, 2, 1, 3, 0, 2] [2, 2, 2, 2]"
    by (simp add: consistent_deg_def row_slice_def upt_rec)
  have sl: "row_slice [0, 2, 4, 6, 8] [1, 3, 0, 2, 1, 3, 0, 2] 0 = [1, 3]"
    by (simp add: row_slice_def)
  have nb: "\<forall>v\<in>set (row_slice [0, 2, 4, 6, 8] [1, 3, 0, 2, 1, 3, 0, 2] 0).
              v < length [2, 2, 2, 2::nat] \<and> [2, 2, 2, 2::nat] ! v \<noteq> 0"
    unfolding sl by simp
  show ?thesis
    using c sl exact_restart[OF c _ _ nb, of "1 / 1000" 1] by simp
qed

text \<open>
  C2, as stated, fails: on the directed graph with the one edge 0 \<rightarrow> 1 (node 1 has degree
  0, so its activation threshold is 0), \<open>alpha = 1\<close> returns the keys 0 and 1, with the
  explicit value 0 for node 1.
\<close>

theorem exact_restart_counterexample:
  "consistent_deg [0, 1, 1] [1] [1, 0] \<and>
   calc_ppr_node 2 0 [0, 1, 1] [1] [1, 0] 1 (1 / 10) = Some (Inr ([0, 1], [1, 0])) \<and>
   calc_ppr_node 2 0 [0, 1, 1] [1] [1, 0] 1 (1 / 10) \<noteq> Some (Inr ([0], [1]))"
  by code_simp

subsection \<open>Out-neighbours of degree 0\<close>



subsection \<open>The batch drivers\<close>

lemma fold_update_length:
  "length (fold (\<lambda>i xs. xs[i := f i]) sched xs) = length xs"
  by (induction sched arbitrary: xs) auto

lemma fold_update_nth_notin:
  "i \<notin> set sched \<Longrightarrow> fold (\<lambda>i xs. xs[i := f i]) sched xs ! i = xs ! i"
  by (induction sched arbitrary: xs) auto

lemma fold_update_nth_in:
  "i \<in> set sched \<Longrightarrow> i < length xs \<Longrightarrow> fold (\<lambda>i xs. xs[i := f i]) sched xs ! i = f i"
proof (induction sched arbitrary: xs)
  case Nil
  then show ?case by simp
next
  case (Cons a sched)
  show ?case
  proof (cases "i \<in> set sched")
    case True
    then show ?thesis using Cons.IH[of "xs[a := f a]"] Cons.prems(2) by simp
  next
    case False
    with Cons.prems have "i = a" by simp
    then show ?thesis using False Cons.prems(2) by (simp add: fold_update_nth_notin)
  qed
qed

lemma fold_update_schedule:
  assumes "schedule_of (length nodes) sched"
  shows "fold (\<lambda>i xs. xs[i := f (nodes ! i)]) sched (replicate (length nodes) z) = map f nodes"
proof (rule nth_equalityI)
  show "length (fold (\<lambda>i xs. xs[i := f (nodes ! i)]) sched (replicate (length nodes) z))
          = length (map f nodes)"
    by (simp add: fold_update_length)
next
  fix i
  assume "i < length (fold (\<lambda>i xs. xs[i := f (nodes ! i)]) sched (replicate (length nodes) z))"
  then have i: "i < length nodes" by (simp add: fold_update_length)
  then have "i \<in> set sched" using assms by (simp add: schedule_of_def)
  then show "fold (\<lambda>i xs. xs[i := f (nodes ! i)]) sched (replicate (length nodes) z) ! i
               = map f nodes ! i"
    using i fold_update_nth_in[of i sched "replicate (length nodes) z" "\<lambda>i. f (nodes ! i)"]
    by simp
qed

lemma prange_loop_rows:
  "prange_loop fuel indptr indices deg alpha epsilon nodes topk sched js0 vals0 = Some (Inr x) \<Longrightarrow>
   i \<in> set sched \<Longrightarrow>
   \<exists>jv. calc_ppr_node fuel (nodes ! i) indptr indices deg alpha epsilon = Some (Inr jv)"
  by (induction sched arbitrary: js0 vals0) (auto split: option.splits sum.splits)

lemma prange_loop_result:
  "\<forall>i\<in>set sched. calc_ppr_node fuel (nodes ! i) indptr indices deg alpha epsilon
       = Some (Inr (rowf (nodes ! i))) \<Longrightarrow>
   prange_loop fuel indptr indices deg alpha epsilon nodes topk sched js0 vals0 =
     Some (Inr (fold (\<lambda>i xs. xs[i := fst (topk_row topk (rowf (nodes ! i)))]) sched js0,
                fold (\<lambda>i xs. xs[i := snd (topk_row topk (rowf (nodes ! i)))]) sched vals0))"
  by (induction sched arbitrary: js0 vals0) auto

lemma calc_ppr_loop_rows:
  "calc_ppr_loop fuel indptr indices deg alpha epsilon nodes js0 vals0 = Some (Inr x) \<Longrightarrow>
   v \<in> set nodes \<Longrightarrow>
   \<exists>jv. calc_ppr_node fuel v indptr indices deg alpha epsilon = Some (Inr jv)"
  by (induction nodes arbitrary: js0 vals0) (auto split: option.splits sum.splits)

lemma calc_ppr_loop_result:
  "\<forall>v\<in>set nodes. calc_ppr_node fuel v indptr indices deg alpha epsilon = Some (Inr (rowf v)) \<Longrightarrow>
   calc_ppr_loop fuel indptr indices deg alpha epsilon nodes js0 vals0 =
     Some (Inr (js0 @ map (\<lambda>v. fst (rowf v)) nodes, vals0 @ map (\<lambda>v. snd (rowf v)) nodes))"
proof (induction nodes arbitrary: js0 vals0)
  case Nil
  then show ?case by simp
next
  case (Cons v nodes)
  have "calc_ppr_node fuel v indptr indices deg alpha epsilon = Some (Inr (fst (rowf v), snd (rowf v)))"
    using Cons.prems by simp
  moreover have "\<forall>v\<in>set nodes. calc_ppr_node fuel v indptr indices deg alpha epsilon = Some (Inr (rowf v))"
    using Cons.prems by simp
  ultimately show ?case using Cons.IH[of "js0 @ [fst (rowf v)]" "vals0 @ [snd (rowf v)]"]
    by (simp add: case_prod_beta)
qed

lemma parallel_result:
  assumes "schedule_of (length nodes) sched"
    and "\<forall>v\<in>set nodes. calc_ppr_node fuel v indptr indices deg alpha epsilon = Some (Inr (rowf v))"
  shows "calc_ppr_topk_parallel fuel sched indptr indices deg alpha epsilon nodes topk =
     Some (Inr (map (\<lambda>v. fst (topk_row topk (rowf v))) nodes,
                map (\<lambda>v. snd (topk_row topk (rowf v))) nodes))"
proof -
  have "\<forall>i\<in>set sched. calc_ppr_node fuel (nodes ! i) indptr indices deg alpha epsilon
       = Some (Inr (rowf (nodes ! i)))"
    using assms by (simp add: schedule_of_def)
  from prange_loop_result[OF this] show ?thesis
    unfolding calc_ppr_topk_parallel_def
    using fold_update_schedule[OF assms(1), of "\<lambda>v. fst (topk_row topk (rowf v))" "[]"]
      fold_update_schedule[OF assms(1), of "\<lambda>v. snd (topk_row topk (rowf v))" "[]"]
    by simp
qed

lemma parallel_rows:
  assumes "schedule_of (length nodes) sched"
    and "calc_ppr_topk_parallel fuel sched indptr indices deg alpha epsilon nodes topk = Some (Inr x)"
    and "v \<in> set nodes"
  shows "\<exists>jv. calc_ppr_node fuel v indptr indices deg alpha epsilon = Some (Inr jv)"
proof -
  from assms(3) obtain i where i: "i < length nodes" "nodes ! i = v" by (auto simp: in_set_conv_nth)
  then have "i \<in> set sched" using assms(1) by (simp add: schedule_of_def)
  from prange_loop_rows[OF assms(2)[unfolded calc_ppr_topk_parallel_def] this] i(2) show ?thesis by simp
qed


text \<open>
  C7. For every schedule of the parallel loop and \<open>topk \<le> 0\<close>, the parallel driver
  returns rows exactly when the sequential \<^verbatim>\<open>calc_ppr\<close> does, and the same ones; row \<open>i\<close>
  is the result of the push for seed \<open>nodes[i]\<close> alone.
\<close>

theorem parallel_equals_sequential:
  assumes "schedule_of (length nodes) sched" and "topk \<le> 0"
  shows "(calc_ppr_topk_parallel fuel sched indptr indices deg alpha epsilon nodes topk
            = Some (Inr (js, vals))) =
         (calc_ppr fuel indptr indices deg alpha epsilon nodes = Some (Inr (js, vals))) \<and>
         (calc_ppr fuel indptr indices deg alpha epsilon nodes = Some (Inr (js, vals)) \<longrightarrow>
            length js = length nodes \<and> length vals = length nodes \<and>
            (\<forall>i<length nodes.
               calc_ppr_node fuel (nodes ! i) indptr indices deg alpha epsilon
                 = Some (Inr (js ! i, vals ! i))))"
proof -
  define rowf where "rowf v =
    (case calc_ppr_node fuel v indptr indices deg alpha epsilon of
       Some (Inr jv) \<Rightarrow> jv | _ \<Rightarrow> ([], []))" for v
  have tk: "topk_row topk jv = jv" for jv using assms(2) by (cases jv) (simp add: topk_row_def)
  have both: "calc_ppr_topk_parallel fuel sched indptr indices deg alpha epsilon nodes topk
        = Some (Inr (map (\<lambda>v. fst (rowf v)) nodes, map (\<lambda>v. snd (rowf v)) nodes)) \<and>
      calc_ppr fuel indptr indices deg alpha epsilon nodes
        = Some (Inr (map (\<lambda>v. fst (rowf v)) nodes, map (\<lambda>v. snd (rowf v)) nodes))"
    if ok: "\<forall>v\<in>set nodes. \<exists>jv. calc_ppr_node fuel v indptr indices deg alpha epsilon = Some (Inr jv)"
  proof -
    have rows: "\<forall>v\<in>set nodes. calc_ppr_node fuel v indptr indices deg alpha epsilon
                  = Some (Inr (rowf v))"
      using ok by (auto simp: rowf_def)
    show ?thesis
      using parallel_result[OF assms(1) rows, of topk] calc_ppr_loop_result[OF rows, of "[]" "[]"]
      by (simp add: tk calc_ppr_def)
  qed
  have par_ok: "\<forall>v\<in>set nodes. \<exists>jv. calc_ppr_node fuel v indptr indices deg alpha epsilon = Some (Inr jv)"
    if "calc_ppr_topk_parallel fuel sched indptr indices deg alpha epsilon nodes topk = Some (Inr x)"
    for x using parallel_rows[OF assms(1) that] by blast
  have seq_ok: "\<forall>v\<in>set nodes. \<exists>jv. calc_ppr_node fuel v indptr indices deg alpha epsilon = Some (Inr jv)"
    if "calc_ppr fuel indptr indices deg alpha epsilon nodes = Some (Inr x)"
    for x using calc_ppr_loop_rows[OF that[unfolded calc_ppr_def]] by blast
  have eq: "(calc_ppr_topk_parallel fuel sched indptr indices deg alpha epsilon nodes topk
            = Some (Inr (js, vals))) =
         (calc_ppr fuel indptr indices deg alpha epsilon nodes = Some (Inr (js, vals)))"
    using both par_ok seq_ok by (metis option.inject sum.inject(2))
  have rowsI: "length js = length nodes \<and> length vals = length nodes \<and>
            (\<forall>i<length nodes.
               calc_ppr_node fuel (nodes ! i) indptr indices deg alpha epsilon
                 = Some (Inr (js ! i, vals ! i)))"
    if s: "calc_ppr fuel indptr indices deg alpha epsilon nodes = Some (Inr (js, vals))"
  proof -
    have ok: "\<forall>v\<in>set nodes. \<exists>jv. calc_ppr_node fuel v indptr indices deg alpha epsilon = Some (Inr jv)"
      using seq_ok[OF s] .
    then have rows: "\<forall>v\<in>set nodes. calc_ppr_node fuel v indptr indices deg alpha epsilon
                  = Some (Inr (rowf v))"
      by (auto simp: rowf_def)
    from both[OF ok] s have js: "js = map (\<lambda>v. fst (rowf v)) nodes"
      and vals: "vals = map (\<lambda>v. snd (rowf v)) nodes" by simp_all
    show ?thesis using rows by (simp add: js vals)
  qed
  from eq rowsI show ?thesis by blast
qed

theorem parallel_equals_sequential_witness:
  "schedule_of (length [0, 2::nat]) [1, 0] \<and> (0::int) \<le> 0 \<and>
   calc_ppr 3 [0, 2, 4, 6, 8] [1, 3, 0, 2, 1, 3, 0, 2] [2, 2, 2, 2] (1 / 2) (1 / 10) [0, 2]
     = Some (Inr ([[0, 3, 1], [2, 3, 1]], [[1 / 2, 1 / 8, 1 / 8], [1 / 2, 1 / 8, 1 / 8]])) \<and>
   calc_ppr_topk_parallel 3 [1, 0] [0, 2, 4, 6, 8] [1, 3, 0, 2, 1, 3, 0, 2] [2, 2, 2, 2]
       (1 / 2) (1 / 10) [0, 2] 0
     = Some (Inr ([[0, 3, 1], [2, 3, 1]], [[1 / 2, 1 / 8, 1 / 8], [1 / 2, 1 / 8, 1 / 8]]))"
proof -
  have s: "schedule_of (length [0, 2::nat]) [1, 0]"
    by (auto simp: schedule_of_def)
  have run: "calc_ppr 3 [0, 2, 4, 6, 8] [1, 3, 0, 2, 1, 3, 0, 2] [2, 2, 2, 2] (1 / 2) (1 / 10) [0, 2]
     = Some (Inr ([[0, 3, 1], [2, 3, 1]], [[1 / 2, 1 / 8, 1 / 8], [1 / 2, 1 / 8, 1 / 8]]))"
    by code_simp
  show ?thesis
    using s run parallel_equals_sequential[OF s, of 0 3 "[0, 2, 4, 6, 8]"
        "[1, 3, 0, 2, 1, 3, 0, 2]" "[2, 2, 2, 2]" "1 / 2" "1 / 10"
        "[[0, 3, 1], [2, 3, 1]]" "[[1 / 2, 1 / 8, 1 / 8], [1 / 2, 1 / 8, 1 / 8]]"]
    by simp
qed

subsection \<open>Truncation to the top entries\<close>

lemma parallel_row:
  assumes "schedule_of (length nodes) sched"
    and "calc_ppr_topk_parallel fuel sched indptr indices deg alpha epsilon nodes topk
           = Some (Inr (js, vals))"
    and "i < length nodes"
  shows "\<exists>jv. calc_ppr_node fuel (nodes ! i) indptr indices deg alpha epsilon = Some (Inr jv) \<and>
              js ! i = fst (topk_row topk jv) \<and> vals ! i = snd (topk_row topk jv)"
proof -
  define rowf where "rowf v =
    (case calc_ppr_node fuel v indptr indices deg alpha epsilon of
       Some (Inr jv) \<Rightarrow> jv | _ \<Rightarrow> ([], []))" for v
  have "\<forall>v\<in>set nodes. \<exists>jv. calc_ppr_node fuel v indptr indices deg alpha epsilon = Some (Inr jv)"
    using parallel_rows[OF assms(1,2)] by blast
  then have rows: "\<forall>v\<in>set nodes. calc_ppr_node fuel v indptr indices deg alpha epsilon
                  = Some (Inr (rowf v))"
    by (auto simp: rowf_def)
  from parallel_result[OF assms(1) rows, of topk] assms(2)
  have "js = map (\<lambda>v. fst (topk_row topk (rowf v))) nodes"
    and "vals = map (\<lambda>v. snd (topk_row topk (rowf v))) nodes" by simp_all
  then show ?thesis using rows assms(3) by simp
qed

lemma calc_ppr_node_lengths:
  "calc_ppr_node fuel s indptr indices deg alpha epsilon = Some (Inr (j, val)) \<Longrightarrow>
   length j = length val"
  by (auto simp: calc_ppr_node_def keys_values_def split: option.splits sum.splits)

lemma last_k_sorted:
  assumes "distinct xs" and "sorted (map f xs)"
  shows "distinct (last_k k xs) \<and> set (last_k k xs) \<subseteq> set xs \<and>
         length (last_k k xs) = min k (length xs) \<and>
         (\<forall>a\<in>set (last_k k xs). \<forall>b\<in>set xs. b \<notin> set (last_k k xs) \<longrightarrow> f b \<le> f a)"
proof -
  let ?m = "length xs - k"
  have split: "xs = take ?m xs @ drop ?m xs" by simp
  have "sorted (map f (take ?m xs) @ map f (drop ?m xs))"
    using assms(2) by (metis append_take_drop_id map_append)
  then have le: "\<forall>x\<in>set (take ?m xs). \<forall>y\<in>set (drop ?m xs). f x \<le> f y"
    by (auto simp: sorted_append)
  have mem: "b \<in> set (take ?m xs)" if "b \<in> set xs" "b \<notin> set (drop ?m xs)" for b
    using that by (metis Un_iff append_take_drop_id set_append)
  show ?thesis
    unfolding last_k_def using assms(1) le mem
    by (auto simp: set_drop_subset[THEN subsetD] min_def)
qed

lemma argsort_props:
  "distinct (argsort val) \<and> set (argsort val) = {..<length val} \<and>
   sorted (map (\<lambda>i. val ! i) (argsort val))"
  by (auto simp: argsort_def)

text \<open>
  C3. Every row that the batch driver returns is the truncation of the push result for
  its seed: for \<open>topk > 0\<close> it has \<open>min(topk, n)\<close> entries, taken at distinct positions
  of the untruncated result of \<open>n\<close> entries, and no omitted entry has a larger value than
  a returned one; for \<open>topk \<le> 0\<close> it is the untruncated result.
\<close>

theorem topk_rows:
  assumes "schedule_of (length nodes) sched"
    and "calc_ppr_topk_parallel fuel sched indptr indices deg alpha epsilon nodes topk
           = Some (Inr (js, vals))"
    and "i < length nodes"
  shows "\<exists>j val.
           calc_ppr_node fuel (nodes ! i) indptr indices deg alpha epsilon = Some (Inr (j, val)) \<and>
           (if topk > 0 then
              length (js ! i) = min (nat topk) (length j) \<and>
              (\<exists>idx. distinct idx \<and> set idx \<subseteq> {..<length j} \<and>
                 js ! i = map (\<lambda>a. j ! a) idx \<and> vals ! i = map (\<lambda>a. val ! a) idx \<and>
                 (\<forall>a\<in>set idx. \<forall>b<length j. b \<notin> set idx \<longrightarrow> val ! b \<le> val ! a))
            else js ! i = j \<and> vals ! i = val)"
proof -
  from parallel_row[OF assms] obtain j val where
    run: "calc_ppr_node fuel (nodes ! i) indptr indices deg alpha epsilon = Some (Inr (j, val))"
    and jsi: "js ! i = fst (topk_row topk (j, val))"
    and vsi: "vals ! i = snd (topk_row topk (j, val))"
    by (metis prod.collapse)
  have len: "length j = length val" using calc_ppr_node_lengths[OF run] .
  show ?thesis
  proof (cases "topk > 0")
    case False
    then show ?thesis using run jsi vsi by (auto simp: topk_row_def)
  next
    case True
    let ?idx = "last_k (nat topk) (argsort val)"
    have js: "js ! i = map (\<lambda>a. j ! a) ?idx" and vs: "vals ! i = map (\<lambda>a. val ! a) ?idx"
      using jsi vsi True by (simp_all add: topk_row_def Let_def)
    note ap = argsort_props[of val]
    from last_k_sorted[of "argsort val" "\<lambda>i. val ! i" "nat topk"] ap
    have d: "distinct ?idx" and sub: "set ?idx \<subseteq> {..<length val}"
      and l: "length ?idx = min (nat topk) (length (argsort val))"
      and top: "\<forall>a\<in>set ?idx. \<forall>b\<in>{..<length val}. b \<notin> set ?idx \<longrightarrow> val ! b \<le> val ! a"
      by auto
    have l': "length (js ! i) = min (nat topk) (length j)"
      using l js len by (simp add: argsort_def)
    have "distinct ?idx \<and> set ?idx \<subseteq> {..<length j} \<and>
          js ! i = map (\<lambda>a. j ! a) ?idx \<and> vals ! i = map (\<lambda>a. val ! a) ?idx \<and>
          (\<forall>a\<in>set ?idx. \<forall>b<length j. b \<notin> set ?idx \<longrightarrow> val ! b \<le> val ! a)"
      using d sub js vs top len by auto
    then show ?thesis using run l' True by auto
  qed
qed

theorem topk_rows_witness:
  "schedule_of (length [0::nat]) [0] \<and> (0::nat) < length [0::nat] \<and>
   calc_ppr_topk_parallel 3 [0] [0, 2, 4, 6, 8] [1, 3, 0, 2, 1, 3, 0, 2] [2, 2, 2, 2]
       (1 / 2) (1 / 10) [0] 2
     = Some (Inr ([[1, 0]], [[1 / 8, 1 / 2]])) \<and>
   calc_ppr_node 3 0 [0, 2, 4, 6, 8] [1, 3, 0, 2, 1, 3, 0, 2] [2, 2, 2, 2] (1 / 2) (1 / 10)
     = Some (Inr ([0, 3, 1], [1 / 2, 1 / 8, 1 / 8])) \<and>
   length ([[1, 0::nat]] ! 0) = min (nat 2) (length [0, 3, 1::nat]) \<and>
   (\<exists>idx. distinct idx \<and> set idx \<subseteq> {..<length [0, 3, 1::nat]} \<and>
      [[1, 0::nat]] ! 0 = map (\<lambda>a. [0, 3, 1] ! a) idx \<and>
      [[1 / 8, 1 / 2::real]] ! 0 = map (\<lambda>a. [1 / 2, 1 / 8, 1 / 8] ! a) idx \<and>
      (\<forall>a\<in>set idx. \<forall>b<length [0, 3, 1::nat].
         b \<notin> set idx \<longrightarrow> [1 / 2, 1 / 8, 1 / 8::real] ! b \<le> [1 / 2, 1 / 8, 1 / 8] ! a))"
proof -
  have s: "schedule_of (length [0::nat]) [0]" by (simp add: schedule_of_def)
  have par: "calc_ppr_topk_parallel 3 [0] [0, 2, 4, 6, 8] [1, 3, 0, 2, 1, 3, 0, 2] [2, 2, 2, 2]
       (1 / 2) (1 / 10) [0] 2
     = Some (Inr ([[1, 0]], [[1 / 8, 1 / 2]]))"
    by code_simp
  have run: "calc_ppr_node 3 0 [0, 2, 4, 6, 8] [1, 3, 0, 2, 1, 3, 0, 2] [2, 2, 2, 2] (1 / 2) (1 / 10)
     = Some (Inr ([0, 3, 1], [1 / 2, 1 / 8, 1 / 8]))"
    by code_simp
  have i: "(0::nat) < length [0::nat]" by simp
  from topk_rows[OF s par i] run
  have "length ([[1, 0::nat]] ! 0) = min (nat 2) (length [0, 3, 1::nat]) \<and>
   (\<exists>idx. distinct idx \<and> set idx \<subseteq> {..<length [0, 3, 1::nat]} \<and>
      [[1, 0::nat]] ! 0 = map (\<lambda>a. [0, 3, 1] ! a) idx \<and>
      [[1 / 8, 1 / 2::real]] ! 0 = map (\<lambda>a. [1 / 2, 1 / 8, 1 / 8] ! a) idx \<and>
      (\<forall>a\<in>set idx. \<forall>b<length [0, 3, 1::nat].
         b \<notin> set idx \<longrightarrow> [1 / 2, 1 / 8, 1 / 8::real] ! b \<le> [1 / 2, 1 / 8, 1 / 8] ! a))"
    by simp
  with s i par run show ?thesis by blast
qed

subsection \<open>An unknown normalization string\<close>

text \<open>
  C4, as the code has it. With a normalization string other than \<^verbatim>\<open>'sym'\<close>,
  \<^verbatim>\<open>'col'\<close> and \<^verbatim>\<open>'row'\<close>, \<^verbatim>\<open>topk_ppr_matrix\<close> first runs the whole PPR computation of
  line 99; when that computation returns a matrix, the call fails with the
  \<^verbatim>\<open>ValueError\<close> that names the string and returns no matrix; when the computation
  raises or does not end, that is the outcome of the call.
\<close>

theorem invalid_normalization:
  assumes "normalization \<noteq> ''sym''" and "normalization \<noteq> ''col''" and "normalization \<noteq> ''row''"
  shows "topk_ppr_matrix rescale_sym rescale_col fuel sched A n0 flag alpha eps idx topk normalization =
           (case ppr_topk fuel sched A alpha eps idx topk of
              None \<Rightarrow> None
            | Some (Inl e) \<Rightarrow> Some (Inl e)
            | Some (Inr m) \<Rightarrow>
                Some (Inl (ValueError (''Unknown PPR normalization: '' @ normalization))))"
  using assms by (simp add: topk_ppr_matrix_def split: option.splits sum.splits)

theorem invalid_normalization_witness:
  "''bogus'' \<noteq> ''sym'' \<and> ''bogus'' \<noteq> ''col'' \<and> ''bogus'' \<noteq> ''row'' \<and>
   ppr_topk 3 [0] \<lparr>csr_indptr = [0, 2, 4, 6, 8], csr_indices = [1, 3, 0, 2, 1, 3, 0, 2],
            csr_data = [1, 1, 1, 1, 1, 1, 1, 1]\<rparr> (1 / 2) (1 / 10) [0] 0
     = Some (Inr [(0, 0, 1 / 2), (0, 3, 1 / 8), (0, 1, 1 / 8)]) \<and>
   topk_ppr_matrix (\<lambda>A idx m. Inr m) (\<lambda>A idx m. Inr m) 3 [0]
         \<lparr>csr_indptr = [0, 2, 4, 6, 8], csr_indices = [1, 3, 0, 2, 1, 3, 0, 2],
            csr_data = [1, 1, 1, 1, 1, 1, 1, 1]\<rparr> 2 True (1 / 2) (1 / 10) [0] 0 ''bogus''
     = Some (Inl (ValueError ''Unknown PPR normalization: bogus''))"
proof -
  have n: "''bogus'' \<noteq> ''sym''" "''bogus'' \<noteq> ''col''" "''bogus'' \<noteq> ''row''" by simp_all
  have run: "ppr_topk 3 [0] \<lparr>csr_indptr = [0, 2, 4, 6, 8], csr_indices = [1, 3, 0, 2, 1, 3, 0, 2],
            csr_data = [1, 1, 1, 1, 1, 1, 1, 1]\<rparr> (1 / 2) (1 / 10) [0] 0
     = Some (Inr [(0, 0, 1 / 2), (0, 3, 1 / 8), (0, 1, 1 / 8)])"
    by code_simp
  show ?thesis
    using n run invalid_normalization[OF n, of "\<lambda>A idx m. Inr m" "\<lambda>A idx m. Inr m" 3 "[0]"
      "\<lparr>csr_indptr = [0, 2, 4, 6, 8], csr_indices = [1, 3, 0, 2, 1, 3, 0, 2],
            csr_data = [1, 1, 1, 1, 1, 1, 1, 1]\<rparr>" 2 True "1 / 2" "1 / 10" "[0]" 0]
    by simp
qed

lemma restart_loop_forever:
  "push_while fuel [0, 1, 2] [1, 0] [1, 1] 1 0 ([(0, 1), (1, 0)], [(0, 0), (1, 0)], [1]) = None \<and>
   push_while fuel [0, 1, 2] [1, 0] [1, 1] 1 0 ([(0, 1), (1, 0)], [(0, 0), (1, 0)], [0]) = None"
proof (induction fuel)
  case 0
  show ?case by simp
next
  case (Suc fuel)
  have a: "pop_step [0, 1, 2] [1, 0] [1, 1] 1 0 ([(0, 1), (1, 0)], [(0, 0), (1, 0)], [1])
             = Inr ([(0, 1), (1, 0)], [(0, 0), (1, 0)], [0])"
    by code_simp
  have b: "pop_step [0, 1, 2] [1, 0] [1, 1] 1 0 ([(0, 1), (1, 0)], [(0, 0), (1, 0)], [0])
             = Inr ([(0, 1), (1, 0)], [(0, 0), (1, 0)], [1])"
    by code_simp
  show ?case using Suc a b by simp
qed

lemma restart_loop_forever_init:
  "push_while fuel [0, 1, 2] [1, 0] [1, 1] 1 (1 * 0) (init_state 0 1) = None"
proof -
  have a: "pop_step [0, 1, 2] [1, 0] [1, 1] 1 0 (init_state 0 1)
             = Inr ([(0, 1)], [(0, 0), (1, 0)], [1])"
    by code_simp
  have b: "pop_step [0, 1, 2] [1, 0] [1, 1] 1 0 ([(0, 1)], [(0, 0), (1, 0)], [1])
             = Inr ([(0, 1), (1, 0)], [(0, 0), (1, 0)], [0])"
    by code_simp
  show ?thesis
  proof (cases fuel)
    case 0
    then show ?thesis by (simp add: init_state_def)
  next
    case (Suc n)
    show ?thesis
    proof (cases n)
      case 0
      then show ?thesis using Suc a by (simp add: init_state_def)
    next
      case (Suc m)
      then show ?thesis using \<open>fuel = Suc n\<close> a b restart_loop_forever[of m]
        by (simp add: init_state_def)
    qed
  qed
qed


text \<open>
  C4, as stated, fails: the normalization string is not inspected before the PPR
  computation. On the ring of 4 nodes (\<open>alpha = 1/2\<close>, \<open>epsilon = 1/10\<close>) a run that is
  allowed no pop has reported no error; and on the graph with the one undirected edge
  0 - 1, with \<open>alpha = 1\<close> and \<open>epsilon = 0\<close> (values the code does not reject), the push
  loop never ends, so the call never reports the unknown string, whatever the number of
  pops.
\<close>

theorem invalid_normalization_counterexample:
  "topk_ppr_matrix (\<lambda>A idx m. Inr m) (\<lambda>A idx m. Inr m) 0 [0]
       \<lparr>csr_indptr = [0, 2, 4, 6, 8], csr_indices = [1, 3, 0, 2, 1, 3, 0, 2],
          csr_data = [1, 1, 1, 1, 1, 1, 1, 1]\<rparr> 2 True (1 / 2) (1 / 10) [0] 0 ''bogus''
     = None \<and>
   (\<forall>fuel.
      topk_ppr_matrix (\<lambda>A idx m. Inr m) (\<lambda>A idx m. Inr m) fuel [0]
          \<lparr>csr_indptr = [0, 1, 2], csr_indices = [1, 0], csr_data = [1, 1]\<rparr>
          1 True 1 0 [0] 0 ''bogus''
        = None)"
proof -
  have first: "topk_ppr_matrix (\<lambda>A idx m. Inr m) (\<lambda>A idx m. Inr m) 0 [0]
       \<lparr>csr_indptr = [0, 2, 4, 6, 8], csr_indices = [1, 3, 0, 2, 1, 3, 0, 2],
          csr_data = [1, 1, 1, 1, 1, 1, 1, 1]\<rparr> 2 True (1 / 2) (1 / 10) [0] 0 ''bogus''
     = None"
    by code_simp
  have od: "out_degree \<lparr>csr_indptr = [0, 1, 2], csr_indices = [1, 0], csr_data = [1, 1]\<rparr> = [1, 1]"
    by code_simp
  have cn: "calc_ppr_node fuel 0 [0, 1, 2] [1, 0] [1, 1] 1 0 = None" for fuel
    using restart_loop_forever_init[of fuel] by (simp add: calc_ppr_node_def)
  have pp: "ppr_topk fuel [0] \<lparr>csr_indptr = [0, 1, 2], csr_indices = [1, 0], csr_data = [1, 1]\<rparr>
          1 0 [0] 0 = None" for fuel
    unfolding ppr_topk_def od using cn[of fuel] by (simp add: calc_ppr_topk_parallel_def)
  have "topk_ppr_matrix (\<lambda>A idx m. Inr m) (\<lambda>A idx m. Inr m) fuel [0]
          \<lparr>csr_indptr = [0, 1, 2], csr_indices = [1, 0], csr_data = [1, 1]\<rparr>
          1 True 1 0 [0] 0 ''bogus'' = None" for fuel
    unfolding topk_ppr_matrix_def pp by simp
  with first show ?thesis by blast
qed

subsection \<open>Empty classes\<close>

lemma calc_gpr_node_empty:
  "calc_gpr_node fuel [] indptr indices deg alpha epsilon = Some (Inr ([], []))"
  by (cases fuel) (simp_all add: calc_gpr_node_def keys_values_def)

lemma where_eq_empty: "c \<notin> set train_idx \<Longrightarrow> where_eq train_idx c = []"
  by (auto simp: where_eq_def filter_empty_conv)

lemma topk_row_empty: "topk_row topk ([], []) = ([], [])"
  by (simp add: topk_row_def argsort_def last_k_def)

lemma gpr_loop_frame:
  "gpr_loop fuel indptr indices deg alpha epsilon train_idx topk cls js0 vals0 = Some (Inr (js, vals)) \<Longrightarrow>
   length js = length js0 \<and> length vals = length vals0 \<and>
   (\<forall>i. i \<notin> set cls \<longrightarrow> js ! i = js0 ! i \<and> vals ! i = vals0 ! i)"
proof (induction cls arbitrary: js0 vals0)
  case Nil
  then show ?case by simp
next
  case (Cons a cls)
  from Cons.prems obtain jv where
    rec: "gpr_loop fuel indptr indices deg alpha epsilon train_idx topk cls
            (js0[a := fst (topk_row topk jv)]) (vals0[a := snd (topk_row topk jv)])
          = Some (Inr (js, vals))"
    by (auto simp: Let_def split: option.splits sum.splits)
  from Cons.IH[OF rec] show ?case by auto
qed

lemma gpr_loop_row:
  "gpr_loop fuel indptr indices deg alpha epsilon train_idx topk cls js0 vals0 = Some (Inr (js, vals)) \<Longrightarrow>
   distinct cls \<Longrightarrow> i \<in> set cls \<Longrightarrow> i < length js0 \<Longrightarrow> i < length vals0 \<Longrightarrow>
   \<exists>jv. calc_gpr_node fuel (where_eq train_idx (int i)) indptr indices deg alpha epsilon
          = Some (Inr jv) \<and>
        js ! i = fst (topk_row topk jv) \<and> vals ! i = snd (topk_row topk jv)"
proof (induction cls arbitrary: js0 vals0)
  case Nil
  then show ?case by simp
next
  case (Cons a cls)
  from Cons.prems(1) obtain jv where
    row: "calc_gpr_node fuel (where_eq train_idx (int a)) indptr indices deg alpha epsilon
            = Some (Inr jv)"
    and rec: "gpr_loop fuel indptr indices deg alpha epsilon train_idx topk cls
            (js0[a := fst (topk_row topk jv)]) (vals0[a := snd (topk_row topk jv)])
          = Some (Inr (js, vals))"
    by (auto simp: Let_def split: option.splits sum.splits)
  show ?case
  proof (cases "i \<in> set cls")
    case True
    from Cons.IH[OF rec _ True] Cons.prems show ?thesis by simp
  next
    case False
    with Cons.prems(3) have ia: "i = a" by simp
    from gpr_loop_frame[OF rec] False
    have "js ! i = (js0[a := fst (topk_row topk jv)]) ! i"
      and "vals ! i = (vals0[a := snd (topk_row topk jv)]) ! i" by auto
    then show ?thesis using row ia Cons.prems(4,5) by auto
  qed
qed

lemma construct_sparse_rows:
  assumes "construct_sparse neighbors weights = Inr m" and "(i, e) \<in> set m"
  shows "i < length neighbors \<and> neighbors ! i \<noteq> []"
proof -
  let ?rows = "concat (map (\<lambda>k. replicate (length (neighbors ! k)) k) [0..<length neighbors])"
  from assms(1) have m: "m = zip ?rows (zip (concat neighbors) (concat weights))"
    by (auto simp: construct_sparse_def Let_def split: if_splits)
  from assms(2) have "i \<in> set ?rows" unfolding m by (rule set_zip_leftD)
  then show ?thesis by auto
qed

text \<open>
  C8. The multi-seed push of an empty seed set returns the empty sparse vector, with no
  error, whatever the graph. A class label \<open>c\<close> in the range of classes to which no node
  is assigned has an empty seed set; its row of \<^verbatim>\<open>calc_gpr_topk_parallel\<close> is empty, and
  the matrix of \<^verbatim>\<open>topk_gpr_matrix\<close> has no entry in row \<open>c\<close>.
\<close>

theorem empty_class_row:
  assumes "0 \<le> c" and "c \<notin> set train_idx"
  shows "calc_gpr_node fuel [] indptr indices deg alpha epsilon = Some (Inr ([], [])) \<and>
         where_eq train_idx c = [] \<and>
         (\<forall>cls_size js vals.
            c < cls_size \<longrightarrow>
            calc_gpr_topk_parallel fuel indptr indices deg alpha epsilon train_idx cls_size topk
              = Some (Inr (js, vals)) \<longrightarrow>
            js ! nat c = [] \<and> vals ! nat c = []) \<and>
         (\<forall>A m.
            c < Max (set train_idx) + 1 \<longrightarrow>
            topk_gpr_matrix fuel A alpha epsilon train_idx topk = Some (Inr m) \<longrightarrow>
            nat c \<notin> fst ` set m)"
proof -
  have we: "where_eq train_idx c = []" using where_eq_empty[OF assms(2)] .
  have row: "js ! nat c = [] \<and> vals ! nat c = []"
    if lt: "c < cls_size"
      and run: "calc_gpr_topk_parallel fuel indptr indices deg alpha epsilon train_idx cls_size topk
                  = Some (Inr (js, vals))"
    for cls_size js vals indptr indices deg
  proof -
    have i: "nat c < nat cls_size" using assms(1) lt by simp
    from gpr_loop_row[OF run[unfolded calc_gpr_topk_parallel_def], of "nat c"] i
    obtain jv where
      r: "calc_gpr_node fuel (where_eq train_idx (int (nat c))) indptr indices deg alpha epsilon
            = Some (Inr jv)"
      and js: "js ! nat c = fst (topk_row topk jv)" and vs: "vals ! nat c = snd (topk_row topk jv)"
      by auto
    have "jv = ([], [])" using r we assms(1) by (simp add: calc_gpr_node_empty)
    then show ?thesis using js vs by (simp add: topk_row_empty)
  qed
  have mat: "nat c \<notin> fst ` set m"
    if lt: "c < Max (set train_idx) + 1"
      and run: "topk_gpr_matrix fuel A alpha epsilon train_idx topk = Some (Inr m)"
    for A m
  proof -
    from run obtain neighbors weights where
      par: "calc_gpr_topk_parallel fuel (csr_indptr A) (csr_indices A) (out_degree A) alpha epsilon
              train_idx (Max (set train_idx) + 1) topk = Some (Inr (neighbors, weights))"
      and cs: "construct_sparse neighbors weights = Inr m"
      by (auto simp: topk_gpr_matrix_def Let_def split: if_splits option.splits sum.splits)
    have "neighbors ! nat c = []" using row[OF lt par] by simp
    then show ?thesis using construct_sparse_rows[OF cs] by force
  qed
  from we row mat show ?thesis by (simp add: calc_gpr_node_empty)
qed

theorem empty_class_row_witness:
  "(0::int) \<le> 1 \<and> (1::int) \<notin> set [0, 2, 0, 2] \<and>
   calc_gpr_topk_parallel 4 [0, 2, 4, 6, 8] [1, 3, 0, 2, 1, 3, 0, 2] [2, 2, 2, 2]
       (1 / 2) (1 / 2) [0, 2, 0, 2] 3 0
     = Some (Inr ([[0, 2], [], [1, 3]], [[1 / 2, 1 / 2], [], [1 / 2, 1 / 2]])) \<and>
   [[0, 2], [], [1, 3::nat]] ! nat 1 = [] \<and>
   topk_gpr_matrix 4 \<lparr>csr_indptr = [0, 2, 4, 6, 8], csr_indices = [1, 3, 0, 2, 1, 3, 0, 2],
       csr_data = [1, 1, 1, 1, 1, 1, 1, 1]\<rparr> (1 / 2) (1 / 2) [0, 2, 0, 2] 0
     = Some (Inr [(0, 0, 1 / 2), (0, 2, 1 / 2), (2, 1, 1 / 2), (2, 3, 1 / 2)]) \<and>
   nat 1 \<notin> fst ` set [(0::nat, 0::nat, 1 / 2::real), (0, 2, 1 / 2), (2, 1, 1 / 2), (2, 3, 1 / 2)]"
proof -
  have h: "(0::int) \<le> 1" "(1::int) \<notin> set [0, 2, 0, 2]" by simp_all
  have mx: "(1::int) < Max (set [0, 2, 0, 2]) + 1" by simp
  have par: "calc_gpr_topk_parallel 4 [0, 2, 4, 6, 8] [1, 3, 0, 2, 1, 3, 0, 2] [2, 2, 2, 2]
       (1 / 2) (1 / 2) [0, 2, 0, 2] 3 0
     = Some (Inr ([[0, 2], [], [1, 3]], [[1 / 2, 1 / 2], [], [1 / 2, 1 / 2]]))"
    by code_simp
  have mat: "topk_gpr_matrix 4 \<lparr>csr_indptr = [0, 2, 4, 6, 8], csr_indices = [1, 3, 0, 2, 1, 3, 0, 2],
       csr_data = [1, 1, 1, 1, 1, 1, 1, 1]\<rparr> (1 / 2) (1 / 2) [0, 2, 0, 2] 0
     = Some (Inr [(0, 0, 1 / 2), (0, 2, 1 / 2), (2, 1, 1 / 2), (2, 3, 1 / 2)])"
    by code_simp
  note t = empty_class_row[OF h, of 4 "[0, 2, 4, 6, 8]" "[1, 3, 0, 2, 1, 3, 0, 2]" "[2, 2, 2, 2]"
      "1 / 2" "1 / 2" 0]
  have "[[0, 2], [], [1, 3::nat]] ! nat 1 = []"
    using t par by fastforce
  moreover have "nat 1 \<notin> fst ` set [(0::nat, 0::nat, 1 / 2::real), (0, 2, 1 / 2), (2, 1, 1 / 2), (2, 3, 1 / 2)]"
    using t mat mx by blast
  ultimately show ?thesis using h par mat by blast
qed

end
